theory Spec2Isabelle
  imports Main
begin

section \<open>Errors, outcomes and the fail-fast range loop\<close>

text \<open>
  A Go \<^verbatim>\<open>error\<close> is modelled by its message; \<^verbatim>\<open>nil\<close> is \<open>None\<close>.
  An operation of the controller ends in one of three ways: it returns \<^verbatim>\<open>nil\<close>
  (\<open>OK\<close>), it returns an error (\<open>Failed\<close>), or the Go runtime panics on an index out
  of range (\<open>Panic\<close>).
\<close>

type_synonym error = string

datatype outcome = OK | Failed error | Panic

text \<open>
  Every loop of the sources has the shape
  \<^verbatim>\<open>for _, x := range xs { if err := f(x); err != nil { return err } }\<close>:
  the body runs on the elements in order and the first outcome other than \<open>OK\<close> leaves
  the loop (and the function) at once.
\<close>

fun for_each :: "('a \<Rightarrow> 's \<Rightarrow> outcome \<times> 's) \<Rightarrow> 'a list \<Rightarrow> 's \<Rightarrow> outcome \<times> 's" where
  "for_each f [] s = (OK, s)"
| "for_each f (x # xs) s =
     (case f x s of
        (OK, s') \<Rightarrow> for_each f xs s'
      | (out, s') \<Rightarrow> (out, s'))"

text \<open>The result of a call \<^verbatim>\<open>err := m.Op()\<close> followed by \<^verbatim>\<open>if err != nil { return err }\<close>.\<close>

fun returned :: "error option \<times> 'w \<Rightarrow> outcome \<times> 'w" where
  "returned (None, w) = (OK, w)"
| "returned (Some err, w) = (Failed err, w)"

section \<open>Data model of package exercise\<close>

text \<open>
  Modelled from the spec: the declarations of \<^verbatim>\<open>RecordConfig\<close>, \<^verbatim>\<open>docker.ContainerConfig\<close>
  and \<^verbatim>\<open>store.Exercise\<close> are missing from the sources. \<^verbatim>\<open>Create\<close> reads \<^verbatim>\<open>RData\<close> of a
  record, writes \<^verbatim>\<open>DNS\<close> of a container configuration and reads \<^verbatim>\<open>Image\<close> of a VirtualBox
  configuration (\<open>Image_conf\<close> and \<open>Image_vbox\<close> here, \<open>Image\<close> being the image of a relation
  in HOL); a DNS record is the triple of type, name and target of the specification.
\<close>

record RecordConfig =
  Type :: string
  Name :: string
  RData :: string

record ContainerConfig =
  Image_conf :: string
  DNS :: "string list"

record VBoxInstanceConfig =
  Image_vbox :: string

text \<open>
  \<^verbatim>\<open>e.conf\<close>: the method \<^verbatim>\<open>ContainerOpts()\<close> is missing from the sources, so what it returns
  is a parameter: the configuration carries the container configurations and, by index,
  their record templates, next to the field \<^verbatim>\<open>VBoxConfig\<close>. Nothing is assumed about the
  lengths of the two lists.
\<close>

record Exercise =
  ContainerOpts :: "ContainerConfig list \<times> RecordConfig list list"
  VBoxConfig :: "VBoxInstanceConfig list"

text \<open>\<^verbatim>\<open>virtual.Instance\<close>: an interface value holding a container or a virtual machine.\<close>

datatype ('c, 'v) Instance = ContainerInstance 'c | VmInstance 'v

text \<open>
  The struct \<^verbatim>\<open>exercise\<close>. \<^verbatim>\<open>ips\<close> is compared with \<^verbatim>\<open>nil\<close>, so it is an option:
  \<open>None\<close> is the nil slice. \<^verbatim>\<open>flags\<close> is not used by any method of the file; \<^verbatim>\<open>net\<close>,
  \<^verbatim>\<open>dockerHost\<close> and \<^verbatim>\<open>lib\<close> are the collaborators below.
\<close>

record ('c, 'v) exercise =
  conf :: Exercise
  machines :: "('c, 'v) Instance list"
  ips :: "int list option"
  dnsIP :: string
  dnsRecords :: "RecordConfig list"

text \<open>
  The collaborators: \<^verbatim>\<open>dockerHost.CreateContainer\<close>, the methods \<^verbatim>\<open>Connect\<close>,
  \<^verbatim>\<open>FormatIP\<close> and \<^verbatim>\<open>Interface\<close> of \<^verbatim>\<open>e.net\<close>, \<^verbatim>\<open>lib.GetCopy\<close> (with the bridge given to
  \<^verbatim>\<open>vbox.SetBridge\<close>), and the methods \<^verbatim>\<open>Start\<close>, \<^verbatim>\<open>Stop\<close> and \<^verbatim>\<open>Close\<close> of an instance.
  They act on a world \<open>'w\<close> (the docker daemon, the network, the hypervisor) that the
  controller never inspects. \<^verbatim>\<open>Connect\<close> is variadic in the requested address: the list is
  empty or has one element.
\<close>

record ('c, 'v, 'w) collab =
  CreateContainer :: "ContainerConfig \<Rightarrow> 'w \<Rightarrow> (error + 'c) \<times> 'w"
  Connect :: "'c \<Rightarrow> int list \<Rightarrow> 'w \<Rightarrow> (error + int) \<times> 'w"
  FormatIP :: "int \<Rightarrow> string"
  Interface :: string
  GetCopy :: "string \<Rightarrow> string \<Rightarrow> 'w \<Rightarrow> (error + 'v) \<times> 'w"
  InstStart :: "('c, 'v) Instance \<Rightarrow> 'w \<Rightarrow> error option \<times> 'w"
  InstStop :: "('c, 'v) Instance \<Rightarrow> 'w \<Rightarrow> error option \<times> 'w"
  InstClose :: "('c, 'v) Instance \<Rightarrow> 'w \<Rightarrow> error option \<times> 'w"

section \<open>Create\<close>

text \<open>The locals of \<^verbatim>\<open>Create\<close> together with the receiver and the world.\<close>

record ('c, 'v, 'w) frame =
  recv :: "('c, 'v) exercise"
  machines_var :: "('c, 'v) Instance list"
  newIps :: "int list"
  world :: 'w

text \<open>
  The inner loop over \<^verbatim>\<open>records[i]\<close>: an empty \<^verbatim>\<open>RData\<close> is replaced by the address, and
  the record is appended to \<^verbatim>\<open>e.dnsRecords\<close>.
\<close>

fun records_loop :: "string \<Rightarrow> RecordConfig list \<Rightarrow> RecordConfig list \<Rightarrow> RecordConfig list" where
  "records_loop ipaddr [] acc = acc"
| "records_loop ipaddr (record # rest) acc =
     records_loop ipaddr rest
       (acc @ [if RData record = [] then record\<lparr>RData := ipaddr\<rparr> else record])"

text \<open>
  The two branches on \<^verbatim>\<open>e.ips != nil\<close>. On the first, \<^verbatim>\<open>e.ips[i]\<close> is evaluated before
  \<^verbatim>\<open>Connect\<close> is called, and panics out of range. On the second the address the network
  chose is appended to \<^verbatim>\<open>newIps\<close>.
\<close>

definition connect_step ::
  "('c, 'v, 'w) collab \<Rightarrow> nat \<Rightarrow> 'c \<Rightarrow> ('c, 'v, 'w) frame \<Rightarrow> (outcome + int) \<times> ('c, 'v, 'w) frame" where
  "connect_step K i c fr =
     (case ips (recv fr) of
        Some tab \<Rightarrow>
          (if i < length tab then
             (case Connect K c [tab ! i] (world fr) of
                (Inl err, w') \<Rightarrow> (Inl (Failed err), fr\<lparr>world := w'\<rparr>)
              | (Inr lastDigit, w') \<Rightarrow> (Inr lastDigit, fr\<lparr>world := w'\<rparr>))
           else (Inl Panic, fr))
      | None \<Rightarrow>
          (case Connect K c [] (world fr) of
             (Inl err, w') \<Rightarrow> (Inl (Failed err), fr\<lparr>world := w'\<rparr>)
           | (Inr lastDigit, w') \<Rightarrow>
               (Inr lastDigit, fr\<lparr>newIps := newIps fr @ [lastDigit], world := w'\<rparr>)))"

text \<open>The body of the loop over \<^verbatim>\<open>containers\<close>, for index \<open>i\<close> and element \<open>spec\<close>.\<close>

definition container_step ::
  "('c, 'v, 'w) collab \<Rightarrow> RecordConfig list list \<Rightarrow> nat \<times> ContainerConfig \<Rightarrow>
   ('c, 'v, 'w) frame \<Rightarrow> outcome \<times> ('c, 'v, 'w) frame" where
  "container_step K records ispec fr =
     (case CreateContainer K ((snd ispec)\<lparr>DNS := [dnsIP (recv fr)]\<rparr>) (world fr) of
        (Inl err, w1) \<Rightarrow> (Failed err, fr\<lparr>world := w1\<rparr>)
      | (Inr c, w1) \<Rightarrow>
          (case connect_step K (fst ispec) c (fr\<lparr>world := w1\<rparr>) of
             (Inl out, fr2) \<Rightarrow> (out, fr2)
           | (Inr lastDigit, fr2) \<Rightarrow>
               (if fst ispec < length records then
                  (OK, fr2\<lparr>recv := (recv fr2)\<lparr>dnsRecords :=
                               records_loop (FormatIP K lastDigit) (records ! fst ispec)
                                 (dnsRecords (recv fr2))\<rparr>,
                            machines_var := machines_var fr2 @ [ContainerInstance c]\<rparr>)
                else (Panic, fr2))))"

text \<open>The body of the loop over \<^verbatim>\<open>e.conf.VBoxConfig\<close>.\<close>

definition vm_step ::
  "('c, 'v, 'w) collab \<Rightarrow> VBoxInstanceConfig \<Rightarrow> ('c, 'v, 'w) frame \<Rightarrow> outcome \<times> ('c, 'v, 'w) frame" where
  "vm_step K spec fr =
     (case GetCopy K (Image_vbox spec) (Interface K) (world fr) of
        (Inl err, w1) \<Rightarrow> (Failed err, fr\<lparr>world := w1\<rparr>)
      | (Inr vm, w1) \<Rightarrow>
          (OK, fr\<lparr>machines_var := machines_var fr @ [VmInstance vm], world := w1\<rparr>))"

text \<open>A slice built by \<^verbatim>\<open>append\<close> from \<^verbatim>\<open>nil\<close>: still nil when nothing was appended.\<close>

definition slice_of :: "int list \<Rightarrow> int list option" where
  "slice_of xs = (if xs = [] then None else Some xs)"

definition Create ::
  "('c, 'v, 'w) collab \<Rightarrow> ('c, 'v) exercise \<Rightarrow> 'w \<Rightarrow> outcome \<times> ('c, 'v) exercise \<times> 'w" where
  "Create K e w =
     (case ContainerOpts (conf e) of (containers, records) \<Rightarrow>
        (case for_each (container_step K records) (enumerate 0 containers)
                \<lparr>recv = e, machines_var = [], newIps = [], world = w\<rparr> of
           (OK, fr1) \<Rightarrow>
             (case for_each (vm_step K) (VBoxConfig (conf e)) fr1 of
                (OK, fr2) \<Rightarrow>
                  (OK,
                   (if ips (recv fr2) = None
                    then (recv fr2)\<lparr>ips := slice_of (newIps fr2)\<rparr>
                    else recv fr2)\<lparr>machines := machines_var fr2\<rparr>,
                   world fr2)
              | (out, fr2) \<Rightarrow> (out, recv fr2, world fr2))
         | (out, fr1) \<Rightarrow> (out, recv fr1, world fr1)))"

section \<open>Start, Stop, Close, Restart, Reset\<close>

definition Start ::
  "('c, 'v, 'w) collab \<Rightarrow> ('c, 'v) exercise \<Rightarrow> 'w \<Rightarrow> outcome \<times> ('c, 'v) exercise \<times> 'w" where
  "Start K e w =
     (case for_each (\<lambda>m w. returned (InstStart K m w)) (machines e) w of
        (out, w') \<Rightarrow> (out, e, w'))"

definition Stop ::
  "('c, 'v, 'w) collab \<Rightarrow> ('c, 'v) exercise \<Rightarrow> 'w \<Rightarrow> outcome \<times> ('c, 'v) exercise \<times> 'w" where
  "Stop K e w =
     (case for_each (\<lambda>m w. returned (InstStop K m w)) (machines e) w of
        (out, w') \<Rightarrow> (out, e, w'))"

definition Close ::
  "('c, 'v, 'w) collab \<Rightarrow> ('c, 'v) exercise \<Rightarrow> 'w \<Rightarrow> outcome \<times> ('c, 'v) exercise \<times> 'w" where
  "Close K e w =
     (case for_each (\<lambda>m w. returned (InstClose K m w)) (machines e) w of
        (OK, w') \<Rightarrow> (OK, e\<lparr>machines := []\<rparr>, w')
      | (out, w') \<Rightarrow> (out, e, w'))"

definition Restart ::
  "('c, 'v, 'w) collab \<Rightarrow> ('c, 'v) exercise \<Rightarrow> 'w \<Rightarrow> outcome \<times> ('c, 'v) exercise \<times> 'w" where
  "Restart K e w =
     (case Stop K e w of
        (OK, e1, w1) \<Rightarrow>
          (case Start K e1 w1 of
             (OK, e2, w2) \<Rightarrow> (OK, e2, w2)
           | (out, e2, w2) \<Rightarrow> (out, e2, w2))
      | (out, e1, w1) \<Rightarrow> (out, e1, w1))"

definition Reset ::
  "('c, 'v, 'w) collab \<Rightarrow> ('c, 'v) exercise \<Rightarrow> 'w \<Rightarrow> outcome \<times> ('c, 'v) exercise \<times> 'w" where
  "Reset K e w =
     (case Close K e w of
        (OK, e1, w1) \<Rightarrow>
          (case Create K e1 w1 of
             (OK, e2, w2) \<Rightarrow>
               (case Start K e2 w2 of
                  (OK, e3, w3) \<Rightarrow> (OK, e3, w3)
                | (out, e3, w3) \<Rightarrow> (out, e3, w3))
           | (out, e2, w2) \<Rightarrow> (out, e2, w2))
      | (out, e1, w1) \<Rightarrow> (out, e1, w1))"

section \<open>Instrumented collaborators\<close>

text \<open>
  A call of a collaborator, with its arguments and what it returned. The instrumented
  collaborators behave as the given ones and append every call to a log kept next to the
  world, the way a test double records the calls it receives.
\<close>

datatype ('c, 'v) call =
    CreateContainerCall ContainerConfig "error + 'c"
  | ConnectCall 'c "int list" "error + int"
  | GetCopyCall string string "error + 'v"
  | StartCall "('c, 'v) Instance" "error option"
  | StopCall "('c, 'v) Instance" "error option"
  | CloseCall "('c, 'v) Instance" "error option"

definition logging ::
  "('a \<Rightarrow> 'r \<Rightarrow> 'b) \<Rightarrow> ('a \<Rightarrow> 'w \<Rightarrow> 'r \<times> 'w) \<Rightarrow> 'a \<Rightarrow> 'w \<times> 'b list \<Rightarrow> 'r \<times> 'w \<times> 'b list" where
  "logging ev f x wl =
     (case f x (fst wl) of (r, w') \<Rightarrow> (r, (w', snd wl @ [ev x r])))"

definition instrumented ::
  "('c, 'v, 'w) collab \<Rightarrow> ('c, 'v, 'w \<times> ('c, 'v) call list) collab" where
  "instrumented K =
     \<lparr>CreateContainer = logging CreateContainerCall (CreateContainer K),
      Connect = (\<lambda>c ip. logging (\<lambda>_. ConnectCall c ip) (\<lambda>_. Connect K c ip) ()),
      FormatIP = FormatIP K,
      Interface = Interface K,
      GetCopy = (\<lambda>img bridge.
        logging (\<lambda>_. GetCopyCall img bridge) (\<lambda>_. GetCopy K img bridge) ()),
      InstStart = logging StartCall (InstStart K),
      InstStop = logging StopCall (InstStop K),
      InstClose = logging CloseCall (InstClose K)\<rparr>"

text \<open>A frame of an instrumented run of \<^verbatim>\<open>Create\<close> without the log.\<close>

definition unlogged :: "('c, 'v, 'w \<times> 'l) frame \<Rightarrow> ('c, 'v, 'w) frame" where
  "unlogged fr =
     \<lparr>recv = recv fr, machines_var = machines_var fr, newIps = newIps fr,
      world = fst (world fr)\<rparr>"

text \<open>The error a logged call returned, if any.\<close>

fun call_error :: "('c, 'v) call \<Rightarrow> error option" where
  "call_error (CreateContainerCall spec r) = (case r of Inl err \<Rightarrow> Some err | Inr _ \<Rightarrow> None)"
| "call_error (ConnectCall c ip r) = (case r of Inl err \<Rightarrow> Some err | Inr _ \<Rightarrow> None)"
| "call_error (GetCopyCall img bridge r) = (case r of Inl err \<Rightarrow> Some err | Inr _ \<Rightarrow> None)"
| "call_error (StartCall m r) = r"
| "call_error (StopCall m r) = r"
| "call_error (CloseCall m r) = r"

fun is_StopCall :: "('c, 'v) call \<Rightarrow> bool" where
  "is_StopCall (StopCall m r) = True"
| "is_StopCall _ = False"

fun is_StartCall :: "('c, 'v) call \<Rightarrow> bool" where
  "is_StartCall (StartCall m r) = True"
| "is_StartCall _ = False"

text \<open>
  What a log says was provisioned: each successful \<^verbatim>\<open>CreateContainer\<close> or \<^verbatim>\<open>GetCopy\<close>
  call, as the request made and the instance it returned, in call order.
\<close>

fun provisioned_by ::
  "('c, 'v) call \<Rightarrow> ((ContainerConfig + string \<times> string) \<times> ('c, 'v) Instance) list" where
  "provisioned_by (CreateContainerCall spec r) =
     (case r of Inl err \<Rightarrow> [] | Inr c \<Rightarrow> [(Inl spec, ContainerInstance c)])"
| "provisioned_by (GetCopyCall img bridge r) =
     (case r of Inl err \<Rightarrow> [] | Inr vm \<Rightarrow> [(Inr (img, bridge), VmInstance vm)])"
| "provisioned_by _ = []"

definition provisioned ::
  "('c, 'v) call list \<Rightarrow> ((ContainerConfig + string \<times> string) \<times> ('c, 'v) Instance) list" where
  "provisioned log = concat (map provisioned_by log)"

text \<open>The last octets the network assigned: the results of the successful \<^verbatim>\<open>Connect\<close> calls.\<close>

fun octet_of :: "('c, 'v) call \<Rightarrow> int list" where
  "octet_of (ConnectCall c ip r) = (case r of Inl err \<Rightarrow> [] | Inr lastDigit \<Rightarrow> [lastDigit])"
| "octet_of _ = []"

definition octets :: "('c, 'v) call list \<Rightarrow> int list" where
  "octets log = concat (map octet_of log)"

text \<open>
  A log is fail-fast for an outcome when no call but the last returned an error, and the
  last one did exactly when the outcome is that error.
\<close>

definition fail_fast :: "outcome \<Rightarrow> ('c, 'v) call list \<Rightarrow> bool" where
  "fail_fast out log =
     (case out of
        Failed err \<Rightarrow>
          log \<noteq> [] \<and> call_error (last log) = Some err \<and>
          list_all (\<lambda>c. call_error c = None) (butlast log)
      | _ \<Rightarrow> list_all (\<lambda>c. call_error c = None) log)"

definition is_container :: "('c, 'v) Instance \<Rightarrow> bool" where
  "is_container m = (case m of ContainerInstance c \<Rightarrow> True | VmInstance vm \<Rightarrow> False)"


section \<open>Conditions on the controller and its collaborators\<close>

text \<open>Collaborators whose provisioning and connect calls never return an error.\<close>

definition succeeding :: "('c, 'v, 'w) collab \<Rightarrow> bool" where
  "succeeding K =
     ((\<forall>spec w. \<not> isl (fst (CreateContainer K spec w))) \<and>
      (\<forall>c ip w. \<not> isl (fst (Connect K c ip w))) \<and>
      (\<forall>img bridge w. \<not> isl (fst (GetCopy K img bridge w))))"

text \<open>
  The data-model invariant of the IP allocation table: once populated it has one entry per
  container specification. \<^verbatim>\<open>ContainerOpts()\<close> returns one list of record templates per
  container specification.
\<close>

definition ips_aligned :: "('c, 'v) exercise \<Rightarrow> bool" where
  "ips_aligned e =
     (case ips e of
        None \<Rightarrow> True
      | Some tab \<Rightarrow> length tab = length (fst (ContainerOpts (conf e))))"

definition records_aligned :: "Exercise \<Rightarrow> bool" where
  "records_aligned cf = (length (snd (ContainerOpts cf)) = length (fst (ContainerOpts cf)))"

text \<open>
  DNS defaulting in the words of the specification: a template with an empty target yields
  the record whose target is the address of its container, a template with a target yields
  itself.
\<close>

definition default_target :: "string \<Rightarrow> RecordConfig \<Rightarrow> RecordConfig" where
  "default_target ipaddr template =
     (if RData template = [] then template\<lparr>RData := ipaddr\<rparr> else template)"

section \<open>The tag pattern\<close>

text \<open>
  \<^verbatim>\<open>tagRawRegexp = `^[a-z0-9][a-z0-9-]*[a-z0-9]$`\<close>. The pattern is a sequence of character
  classes, one of them starred, between the anchors \<^verbatim>\<open>^\<close> and \<^verbatim>\<open>$\<close> (without the flag
  \<^verbatim>\<open>m\<close>: begin and end of the text). A class is a list of ranges; a single character such as
  \<^verbatim>\<open>-\<close> is the range from itself to itself. Matching is on bytes: the classes are ASCII, so
  no byte of a multi-byte rune is in one.
\<close>

datatype char_range = Range char char

fun in_range :: "char_range \<Rightarrow> char \<Rightarrow> bool" where
  "in_range (Range lo hi) c = ((of_char lo :: nat) \<le> of_char c \<and> (of_char c :: nat) \<le> of_char hi)"

definition in_class :: "char_range list \<Rightarrow> char \<Rightarrow> bool" where
  "in_class cls c = list_ex (\<lambda>r. in_range r c) cls"

datatype regex_item = Class "char_range list" | ClassStar "char_range list"

text \<open>An anchored match of a sequence of items against the whole text.\<close>

fun match_items :: "regex_item list \<Rightarrow> string \<Rightarrow> bool" where
  "match_items [] s = (s = [])"
| "match_items (Class cls # items) [] = False"
| "match_items (Class cls # items) (c # s) = (in_class cls c \<and> match_items items s)"
| "match_items (ClassStar cls # items) [] = match_items items []"
| "match_items (ClassStar cls # items) (c # s) =
     (match_items items (c # s) \<or> (in_class cls c \<and> match_items (ClassStar cls # items) s))"

definition tagRegex :: "regex_item list" where
  "tagRegex =
     [Class [Range CHR ''a'' CHR ''z'', Range CHR ''0'' CHR ''9''],
      ClassStar [Range CHR ''a'' CHR ''z'', Range CHR ''0'' CHR ''9'', Range CHR ''-'' CHR ''-''],
      Class [Range CHR ''a'' CHR ''z'', Range CHR ''0'' CHR ''9'']]"

definition MatchString :: "regex_item list \<Rightarrow> string \<Rightarrow> bool" where
  "MatchString re s = match_items re s"

text \<open>
  The validity of a tag in the words of the specification: it starts and ends with a
  lowercase letter or digit, every interior character is a lowercase letter, a digit or a
  hyphen, and it has at least two characters.
\<close>

definition lower_or_digit :: "char \<Rightarrow> bool" where
  "lower_or_digit c = (c \<in> set ''abcdefghijklmnopqrstuvwxyz0123456789'')"

definition valid_tag_spec :: "string \<Rightarrow> bool" where
  "valid_tag_spec s =
     (2 \<le> length s \<and> lower_or_digit (hd s) \<and> lower_or_digit (last s) \<and>
      (\<forall>c \<in> set (butlast (tl s)). lower_or_digit c \<or> c = CHR ''-''))"

section \<open>The event configuration store\<close>

text \<open>
  \<^verbatim>\<open>EventConfig\<close> of package store. \<^verbatim>\<open>Tag\<close> is a string type and \<^verbatim>\<open>time.Time\<close> a point in
  time, here an integer; \<^verbatim>\<open>InstanceConfig\<close> is declared outside the given sources and a
  frontend is represented by its image name. The fields \<^verbatim>\<open>Name\<close> and \<^verbatim>\<open>Tag\<close> carry the
  suffix \<open>_event\<close>.
\<close>

type_synonym Time = int

record Lab =
  Frontends :: "string list"
  Exercises :: "string list"

record EventConfig =
  Name_event :: string
  Tag_event :: string
  Available :: int
  Capacity :: int
  Lab_event :: Lab
  StartedAt :: "Time option"
  FinishExpected :: "Time option"
  FinishedAt :: "Time option"

text \<open>
  A hook \<^verbatim>\<open>func(EventConfig) error\<close> receives a copy of the configuration and acts on the
  world (the event file on disk). The mutex of the store serialises callers and has no
  counterpart in a sequential model.
\<close>

type_synonym 'w hook = "EventConfig \<Rightarrow> 'w \<Rightarrow> error option \<times> 'w"

record 'w eventconfigstore =
  conf_store :: EventConfig
  hooks :: "'w hook list"

definition NewEventConfigStore :: "EventConfig \<Rightarrow> 'w hook list \<Rightarrow> 'w eventconfigstore" where
  "NewEventConfigStore c hs = \<lparr>conf_store = c, hooks = hs\<rparr>"

definition Read :: "'w eventconfigstore \<Rightarrow> EventConfig" where
  "Read es = conf_store es"

definition runHooks :: "'w eventconfigstore \<Rightarrow> 'w \<Rightarrow> outcome \<times> 'w" where
  "runHooks es w = for_each (\<lambda>h w. returned (h (conf_store es) w)) (hooks es) w"

definition SetCapacity ::
  "int \<Rightarrow> 'w eventconfigstore \<Rightarrow> 'w \<Rightarrow> outcome \<times> 'w eventconfigstore \<times> 'w" where
  "SetCapacity n es w =
     (let es' = es\<lparr>conf_store := (conf_store es)\<lparr>Capacity := n\<rparr>\<rparr>
      in case runHooks es' w of (out, w') \<Rightarrow> (out, es', w'))"

definition Finish ::
  "Time \<Rightarrow> 'w eventconfigstore \<Rightarrow> 'w \<Rightarrow> outcome \<times> 'w eventconfigstore \<times> 'w" where
  "Finish t es w =
     (let es' = es\<lparr>conf_store := (conf_store es)\<lparr>FinishedAt := Some t\<rparr>\<rparr>
      in case runHooks es' w of (out, w') \<Rightarrow> (out, es', w'))"

text \<open>
  Instrumented hooks: the hook registered at position \<open>i\<close> appends \<open>(i, c, r)\<close> to the log
  when it is called with the configuration \<open>c\<close> and returns \<open>r\<close>.
\<close>

definition instrumented_hooks ::
  "'w hook list \<Rightarrow> ('w \<times> (nat \<times> EventConfig \<times> error option) list) hook list" where
  "instrumented_hooks hs =
     map (\<lambda>ih. logging (\<lambda>c r. (fst ih, c, r)) (snd ih)) (enumerate 0 hs)"

section \<open>Concrete collaborators for the examples\<close>

text \<open>
  A world that counts the instances created so far and names each instance by its number.
  Provisioning fails for the images listed in \<open>missing\<close>; the network assigns the octet
  \<open>c + 2\<close> to container \<open>c\<close> unless an address is requested; stopping fails for the virtual
  machine 9 and closing for the container 8.
\<close>

definition demo_collab :: "string list \<Rightarrow> (nat, nat, nat) collab" where
  "demo_collab missing =
     \<lparr>CreateContainer = (\<lambda>spec w.
        if Image_conf spec \<in> set missing then (Inl ''no such image'', w) else (Inr w, Suc w)),
      Connect = (\<lambda>c ip w. case ip of [] \<Rightarrow> (Inr (int c + 2), w) | d # _ \<Rightarrow> (Inr d, w)),
      FormatIP = (\<lambda>d. if d = 2 then ''172.16.5.2'' else if d = 3 then ''172.16.5.3''
                       else ''172.16.5.254''),
      Interface = ''br0'',
      GetCopy = (\<lambda>img bridge w.
        if img \<in> set missing then (Inl ''no such machine'', w) else (Inr w, Suc w)),
      InstStart = (\<lambda>m w. (None, w)),
      InstStop = (\<lambda>m w. if m = VmInstance 9 then (Some ''vm is locked'', w) else (None, w)),
      InstClose = (\<lambda>m w.
        if m = ContainerInstance 8 then (Some ''container is busy'', w) else (None, w))\<rparr>"

definition demo_conf :: Exercise where
  "demo_conf =
     \<lparr>ContainerOpts =
        ([\<lparr>Image_conf = ''web'', DNS = []\<rparr>, \<lparr>Image_conf = ''db'', DNS = []\<rparr>],
         [[\<lparr>Type = ''A'', Name = ''web.local'', RData = []\<rparr>,
           \<lparr>Type = ''CNAME'', Name = ''www.local'', RData = ''web.local''\<rparr>],
          [\<lparr>Type = ''A'', Name = ''db.local'', RData = []\<rparr>]]),
      VBoxConfig = [\<lparr>Image_vbox = ''kali.ova''\<rparr>]\<rparr>"

definition demo_exercise :: "(nat, nat) Instance list \<Rightarrow> (nat, nat) exercise" where
  "demo_exercise ms =
     \<lparr>conf = demo_conf, machines = ms, ips = None, dnsIP = ''172.16.5.1'', dnsRecords = []\<rparr>"

text \<open>The records of \<open>demo_conf\<close> once the network has assigned the octets 2 and 3.\<close>

definition demo_records :: "RecordConfig list" where
  "demo_records =
     [\<lparr>Type = ''A'', Name = ''web.local'', RData = ''172.16.5.2''\<rparr>,
      \<lparr>Type = ''CNAME'', Name = ''www.local'', RData = ''web.local''\<rparr>,
      \<lparr>Type = ''A'', Name = ''db.local'', RData = ''172.16.5.3''\<rparr>]"

definition demo_event :: EventConfig where
  "demo_event =
     \<lparr>Name_event = ''Summer school'', Tag_event = ''summer'', Available = 10, Capacity = 20,
      Lab_event = \<lparr>Frontends = [''kali''], Exercises = [''sql'', ''xss'']\<rparr>,
      StartedAt = Some 100, FinishExpected = Some 900, FinishedAt = None\<rparr>"

text \<open>Hooks on a world that counts the saves: one that saves, one that refuses.\<close>

definition save_hook :: "nat hook" where
  "save_hook c w = (None, Suc w)"

definition full_disk_hook :: "nat hook" where
  "full_disk_hook c w = (Some ''no space left on device'', w)"

section \<open>Properties of the range loop\<close>

text \<open>
  A property that every pass through the body keeps holds when the loop is left.
\<close>

lemma for_each_preserves:
  assumes step: "\<And>x s out s'. f x s = (out, s') \<Longrightarrow> P s \<Longrightarrow> P s'"
    and "P s" and "for_each f xs s = (out, s')"
  shows "P s'"
  using assms(2,3)
proof (induction xs arbitrary: s)
  case Nil
  then show ?case by simp
next
  case (Cons x xs)
  obtain o1 s1 where f: "f x s = (o1, s1)" by (cases "f x s")
  from step[OF f Cons.prems(1)] have p1: "P s1" .
  show ?case
  proof (cases "o1 = OK")
    case True
    with f Cons.prems(2) have "for_each f xs s1 = (out, s')" by simp
    from Cons.IH[OF p1 this] show ?thesis .
  next
    case False
    with f Cons.prems(2) have "s' = s1" by (cases o1) simp_all
    with p1 show ?thesis by simp
  qed
qed

text \<open>
  A loop over mapped elements, and two loops whose bodies commute with a map \<open>h\<close> of the
  state.
\<close>

lemma for_each_map: "for_each f (map p xs) s = for_each (\<lambda>x. f (p x)) xs s"
  by (induction xs arbitrary: s) (simp_all split: prod.splits outcome.splits)

lemma for_each_commute:
  assumes step: "\<And>x s. g x (h s) = (case f x s of (out, s1) \<Rightarrow> (out, h s1))"
  shows "for_each g xs (h s) = (case for_each f xs s of (out, s1) \<Rightarrow> (out, h s1))"
proof (induction xs arbitrary: s)
  case Nil
  then show ?case by simp
next
  case (Cons x xs)
  obtain o1 s1 where f: "f x s = (o1, s1)" by (cases "f x s")
  with step[of x s] have g: "g x (h s) = (o1, h s1)" by simp
  from f g Cons.IH[of s1] show ?case by (cases o1) simp_all
qed

text \<open>
  A loop over instances whose primitive is instrumented: the log grows by one successful
  call per instance, in list order, and ends with the first failing call.
\<close>

lemma logged_loop:
  assumes "for_each (\<lambda>m wl. returned (logging ev g m wl)) ms (w, l) = (out, (w', l'))"
  shows "(out = OK \<and> l' = l @ map (\<lambda>m. ev m None) ms) \<or>
         (\<exists>k err. k < length ms \<and> out = Failed err \<and>
            l' = l @ map (\<lambda>m. ev m None) (take k ms) @ [ev (ms ! k) (Some err)])"
  using assms
proof (induction ms arbitrary: w l)
  case Nil
  then show ?case by simp
next
  case (Cons m ms)
  obtain r w1 where g: "g m w = (r, w1)" by (cases "g m w")
  show ?case
  proof (cases r)
    case None
    with g Cons.prems
    have "for_each (\<lambda>m wl. returned (logging ev g m wl)) ms (w1, l @ [ev m None]) = (out, (w', l'))"
      by (simp add: logging_def)
    from Cons.IH[OF this] show ?thesis
    proof
      assume "out = OK \<and> l' = (l @ [ev m None]) @ map (\<lambda>m. ev m None) ms"
      then show ?thesis by simp
    next
      assume "\<exists>k err. k < length ms \<and> out = Failed err \<and>
            l' = (l @ [ev m None]) @ map (\<lambda>m. ev m None) (take k ms) @ [ev (ms ! k) (Some err)]"
      then obtain k err where "k < length ms" "out = Failed err"
        "l' = (l @ [ev m None]) @ map (\<lambda>m. ev m None) (take k ms) @ [ev (ms ! k) (Some err)]"
        by blast
      then have "Suc k < length (m # ms) \<and> out = Failed err \<and>
            l' = l @ map (\<lambda>m. ev m None) (take (Suc k) (m # ms)) @ [ev ((m # ms) ! Suc k) (Some err)]"
        by simp
      then show ?thesis by blast
    qed
  next
    case (Some err)
    with g Cons.prems have "out = Failed err" "l' = l @ [ev m (Some err)]"
      by (simp_all add: logging_def)
    then have "0 < length (m # ms) \<and> out = Failed err \<and>
       l' = l @ map (\<lambda>m. ev m None) (take 0 (m # ms)) @ [ev ((m # ms) ! 0) (Some err)]"
      by simp
    then show ?thesis by blast
  qed
qed

text \<open>
  Fail-fast logs compose: after calls that all succeeded, a fail-fast log stays one.
\<close>

lemma fail_fast_append:
  assumes "list_all (\<lambda>c. call_error c = None) a" and "fail_fast out b"
  shows "fail_fast out (a @ b)"
proof (cases out)
  case (Failed err)
  with assms(2) have b: "b \<noteq> []" by (simp add: fail_fast_def)
  then have "last (a @ b) = last b" "butlast (a @ b) = a @ butlast b"
    by (simp_all add: butlast_append)
  with assms Failed b show ?thesis by (simp add: fail_fast_def)
next
  case OK
  with assms show ?thesis by (simp add: fail_fast_def)
next
  case Panic
  with assms show ?thesis by (simp add: fail_fast_def)
qed

lemma for_each_fail_fast:
  assumes step: "\<And>x s out s'. f x s = (out, s') \<Longrightarrow> \<exists>new. lg s' = lg s @ new \<and> fail_fast out new"
    and "for_each f xs s = (out, s')"
  shows "\<exists>new. lg s' = lg s @ new \<and> fail_fast out new"
  using assms(2)
proof (induction xs arbitrary: s)
  case Nil
  then show ?case by (simp add: fail_fast_def)
next
  case (Cons x xs)
  obtain o1 s1 where f: "f x s = (o1, s1)" by (cases "f x s")
  from step[OF f] obtain new1 where n1: "lg s1 = lg s @ new1" "fail_fast o1 new1" by blast
  show ?case
  proof (cases "o1 = OK")
    case True
    with f Cons.prems have "for_each f xs s1 = (out, s')" by simp
    from Cons.IH[OF this] obtain new2 where n2: "lg s' = lg s1 @ new2" "fail_fast out new2"
      by blast
    from n1(2) True have "list_all (\<lambda>c. call_error c = None) new1" by (simp add: fail_fast_def)
    from fail_fast_append[OF this n2(2)] n1(1) n2(1) show ?thesis by auto
  next
    case False
    with f Cons.prems have "out = o1 \<and> s' = s1" by (cases o1) auto
    with n1 show ?thesis by auto
  qed
qed

lemma fail_fast_failed_call:
  assumes "fail_fast out log" and "c \<in> set log" and "call_error c = Some err"
  shows "out = Failed err \<and> last log = c"
proof (cases out)
  case (Failed err')
  with assms(1) have ne: "log \<noteq> []" and l: "call_error (last log) = Some err'"
    and b: "list_all (\<lambda>c. call_error c = None) (butlast log)"
    by (simp_all add: fail_fast_def)
  from ne obtain ys y where "log = ys @ [y]" by (cases log rule: rev_cases) auto
  with assms(2) have "c \<in> set (butlast log) \<or> c = last log" by auto
  with b assms(3) have "c = last log" by (auto simp: list_all_iff)
  with l assms(3) Failed show ?thesis by simp
next
  case OK
  with assms show ?thesis by (auto simp: fail_fast_def list_all_iff)
next
  case Panic
  with assms show ?thesis by (auto simp: fail_fast_def list_all_iff)
qed

section \<open>Start, Stop, Close and Restart on instrumented instances\<close>

lemma Close_log_shape:
  assumes "Close (instrumented K) e (w, l) = (out, e', (w', log))"
  shows "(out = OK \<and> log = l @ map (\<lambda>m. CloseCall m None) (machines e) \<and> e' = e\<lparr>machines := []\<rparr>) \<or>
         (\<exists>k err. k < length (machines e) \<and> out = Failed err \<and>
            log = l @ map (\<lambda>m. CloseCall m None) (take k (machines e)) @
                  [CloseCall (machines e ! k) (Some err)] \<and> e' = e)"
proof -
  obtain o1 w1 l1 where run:
    "for_each (\<lambda>m wl. returned (logging CloseCall (InstClose K) m wl)) (machines e) (w, l) = (o1, (w1, l1))"
    by (metis prod.exhaust)
  from run assms have
    "(o1 = OK \<longrightarrow> out = OK \<and> log = l1 \<and> e' = e\<lparr>machines := []\<rparr>) \<and>
     (o1 \<noteq> OK \<longrightarrow> out = o1 \<and> log = l1 \<and> e' = e)"
    by (cases o1) (auto simp: Close_def instrumented_def)
  with logged_loop[OF run] show ?thesis by auto
qed

lemma Stop_log_shape:
  assumes "Stop (instrumented K) e (w, l) = (out, e', (w', log))"
  shows "e' = e \<and> ((out = OK \<and> log = l @ map (\<lambda>m. StopCall m None) (machines e)) \<or>
         (\<exists>k err. k < length (machines e) \<and> out = Failed err \<and>
            log = l @ map (\<lambda>m. StopCall m None) (take k (machines e)) @
                  [StopCall (machines e ! k) (Some err)]))"
proof -
  obtain o1 w1 l1 where run:
    "for_each (\<lambda>m wl. returned (logging StopCall (InstStop K) m wl)) (machines e) (w, l) = (o1, (w1, l1))"
    by (metis prod.exhaust)
  with assms have "out = o1 \<and> log = l1 \<and> e' = e"
    by (simp add: Stop_def instrumented_def)
  with logged_loop[OF run] show ?thesis by simp
qed

lemma Start_log_shape:
  assumes "Start (instrumented K) e (w, l) = (out, e', (w', log))"
  shows "e' = e \<and> ((out = OK \<and> log = l @ map (\<lambda>m. StartCall m None) (machines e)) \<or>
         (\<exists>k err. k < length (machines e) \<and> out = Failed err \<and>
            log = l @ map (\<lambda>m. StartCall m None) (take k (machines e)) @
                  [StartCall (machines e ! k) (Some err)]))"
proof -
  obtain o1 w1 l1 where run:
    "for_each (\<lambda>m wl. returned (logging StartCall (InstStart K) m wl)) (machines e) (w, l) = (o1, (w1, l1))"
    by (metis prod.exhaust)
  with assms have "out = o1 \<and> log = l1 \<and> e' = e"
    by (simp add: Start_def instrumented_def)
  with logged_loop[OF run] show ?thesis by simp
qed

lemma Restart_log_shape:
  assumes "Restart (instrumented K) e (w, []) = (out, e', (w', log))"
  shows "e' = e \<and>
    ((\<exists>k err. k < length (machines e) \<and> out = Failed err \<and>
        log = map (\<lambda>m. StopCall m None) (take k (machines e)) @ [StopCall (machines e ! k) (Some err)]) \<or>
     (out = OK \<and> log = map (\<lambda>m. StopCall m None) (machines e) @ map (\<lambda>m. StartCall m None) (machines e)) \<or>
     (\<exists>k err. k < length (machines e) \<and> out = Failed err \<and>
        log = map (\<lambda>m. StopCall m None) (machines e) @
              map (\<lambda>m. StartCall m None) (take k (machines e)) @ [StartCall (machines e ! k) (Some err)]))"
proof -
  obtain o1 e1 w1 l1 where stop: "Stop (instrumented K) e (w, []) = (o1, e1, (w1, l1))"
    by (metis prod.exhaust)
  note s = Stop_log_shape[OF stop]
  show ?thesis
  proof (cases "o1 = OK")
    case False
    with stop assms have "out = o1 \<and> e' = e1 \<and> log = l1"
      by (cases o1) (simp_all add: Restart_def)
    with s False show ?thesis by auto
  next
    case True
    obtain o2 e2 w2 l2 where start: "Start (instrumented K) e1 (w1, l1) = (o2, e2, (w2, l2))"
      by (metis prod.exhaust)
    with stop assms True have eq: "out = o2 \<and> e' = e2 \<and> log = l2"
      by (cases o2) (simp_all add: Restart_def)
    from s True have l1: "e1 = e" "l1 = map (\<lambda>m. StopCall m None) (machines e)" by auto
    from Start_log_shape[OF start] eq l1 show ?thesis by auto
  qed
qed

lemma split_log_order:
  assumes "\<forall>a \<in> set A. \<not> is_StartCall a" "\<forall>b \<in> set B. \<not> is_StopCall b"
    and "i < length (A @ B)" "j < length (A @ B)"
    and "is_StopCall ((A @ B) ! i)" "is_StartCall ((A @ B) ! j)"
  shows "i < j"
proof -
  have "i < length A"
  proof (rule ccontr)
    assume "\<not> i < length A"
    with assms(3) have "(A @ B) ! i \<in> set B" by (simp add: nth_append)
    with assms(2,5) show False by blast
  qed
  moreover have "\<not> j < length A"
  proof
    assume "j < length A"
    then have "(A @ B) ! j \<in> set A" by (simp add: nth_append)
    with assms(1,6) show False by blast
  qed
  ultimately show ?thesis by simp
qed

text \<open>
  The instrumented primitives return what the given ones return: the log is the only
  difference between the two runs.
\<close>

lemma instance_loop_instrumented:
  "for_each (\<lambda>m w. returned (g m w)) ms (fst wl) =
     (case for_each (\<lambda>m wl. returned (logging ev g m wl)) ms wl of
        (out, wl') \<Rightarrow> (out, fst wl'))"
proof (rule for_each_commute)
  fix x s
  show "returned (g x (fst s)) =
      (case returned (logging ev g x s) of (out, s1) \<Rightarrow> (out, fst s1))"
    by (cases "g x (fst s)"; cases "fst (g x (fst s))") (auto simp: logging_def)
qed

lemma Close_instrumented:
  "Close K e w = (case Close (instrumented K) e (w, l) of (out, e', wl) \<Rightarrow> (out, e', fst wl))"
  using instance_loop_instrumented[of "InstClose K" "machines e" "(w, l)" CloseCall]
  by (auto simp: Close_def instrumented_def split: prod.splits outcome.splits)

lemma Stop_instrumented:
  "Stop K e w = (case Stop (instrumented K) e (w, l) of (out, e', wl) \<Rightarrow> (out, e', fst wl))"
  using instance_loop_instrumented[of "InstStop K" "machines e" "(w, l)" StopCall]
  by (auto simp: Stop_def instrumented_def split: prod.splits)

lemma Start_instrumented:
  "Start K e w = (case Start (instrumented K) e (w, l) of (out, e', wl) \<Rightarrow> (out, e', fst wl))"
  using instance_loop_instrumented[of "InstStart K" "machines e" "(w, l)" StartCall]
  by (auto simp: Start_def instrumented_def split: prod.splits)

lemma Restart_instrumented:
  "Restart K e w =
     (case Restart (instrumented K) e (w, l) of (out, e', wl) \<Rightarrow> (out, e', fst wl))"
proof -
  obtain o1 e1 w1 l1 where s: "Stop (instrumented K) e (w, l) = (o1, e1, (w1, l1))"
    by (metis prod.exhaust)
  with Stop_instrumented[of K e w l] have s0: "Stop K e w = (o1, e1, w1)" by simp
  obtain o2 e2 w2 l2 where t: "Start (instrumented K) e1 (w1, l1) = (o2, e2, (w2, l2))"
    by (metis prod.exhaust)
  with Start_instrumented[of K e1 w1 l1] have t0: "Start K e1 w1 = (o2, e2, w2)" by simp
  from s s0 t t0 show ?thesis
    by (cases o1; cases o2) (simp_all add: Restart_def)
qed

lemmas demo_defs = demo_collab_def demo_exercise_def demo_conf_def instrumented_def logging_def

subsection \<open>Close\<close>

text \<open>
  Claim C6. In an instrumented run of \<^verbatim>\<open>Close()\<close> the release primitive is called on the
  instances in list order. Either every call succeeds, the log holds one release per
  instance and the machine list is empty afterwards; or the call on the instance at some
  position \<open>k\<close> fails, \<^verbatim>\<open>Close()\<close> returns that error, the log ends with the failing call
  (no later instance is released) and the machine list is unchanged.
\<close>

theorem Close_fail_fast:
  assumes "Close (instrumented K) e (w, []) = (out, e', (w', log))"
  shows "(out = OK \<and> log = map (\<lambda>m. CloseCall m None) (machines e) \<and> machines e' = []) \<or>
         (\<exists>k err. k < length (machines e) \<and> out = Failed err \<and>
            log = map (\<lambda>m. CloseCall m None) (take k (machines e)) @
                  [CloseCall (machines e ! k) (Some err)] \<and>
            machines e' = machines e)"
  using Close_log_shape[OF assms] by auto

text \<open>
  Two runs: closing fails on the second of three instances; closing two instances succeeds.
\<close>

theorem Close_fail_fast_witness:
  "Close (instrumented (demo_collab []))
     (demo_exercise [ContainerInstance 0, ContainerInstance 8, VmInstance 1]) (2, []) =
     (Failed ''container is busy'',
      demo_exercise [ContainerInstance 0, ContainerInstance 8, VmInstance 1],
      (2, [CloseCall (ContainerInstance 0) None,
           CloseCall (ContainerInstance 8) (Some ''container is busy'')])) \<and>
   Close (instrumented (demo_collab []))
     (demo_exercise [ContainerInstance 0, VmInstance 1]) (2, []) =
     (OK, demo_exercise [],
      (2, [CloseCall (ContainerInstance 0) None, CloseCall (VmInstance 1) None]))"
proof -
  have run1: "Close (instrumented (demo_collab []))
     (demo_exercise [ContainerInstance 0, ContainerInstance 8, VmInstance 1]) (2, []) =
     (Failed ''container is busy'',
      demo_exercise [ContainerInstance 0, ContainerInstance 8, VmInstance 1],
      (2, [CloseCall (ContainerInstance 0) None,
           CloseCall (ContainerInstance 8) (Some ''container is busy'')]))"
    by (simp add: Close_def demo_defs)
  have run2: "Close (instrumented (demo_collab []))
     (demo_exercise [ContainerInstance 0, VmInstance 1]) (2, []) =
     (OK, demo_exercise [],
      (2, [CloseCall (ContainerInstance 0) None, CloseCall (VmInstance 1) None]))"
    by (simp add: Close_def demo_defs)
  from Close_fail_fast[OF run1] Close_fail_fast[OF run2] run1 run2 show ?thesis by blast
qed

subsection \<open>Restart\<close>

text \<open>
  Claim C7. In an instrumented run of \<^verbatim>\<open>Restart()\<close> every stop call comes before every
  start call in the log, and when a stop call fails \<^verbatim>\<open>Restart()\<close> returns that error and the
  log holds no start call.
\<close>

theorem Restart_stops_before_starts:
  assumes "Restart (instrumented K) e (w, []) = (out, e', (w', log))"
  shows "(\<forall>i j. i < length log \<and> j < length log \<and> is_StopCall (log ! i) \<and> is_StartCall (log ! j)
            \<longrightarrow> i < j) \<and>
         (\<forall>c err. c \<in> set log \<and> is_StopCall c \<and> call_error c = Some err
            \<longrightarrow> out = Failed err \<and> (\<forall>c' \<in> set log. \<not> is_StartCall c'))"
proof -
  let ?ms = "machines e"
  from Restart_log_shape[OF assms] consider
    (stop_failed) k err where "k < length ?ms" "out = Failed err"
      "log = map (\<lambda>m. StopCall m None) (take k ?ms) @ [StopCall (?ms ! k) (Some err)]"
  | (ok) "out = OK" "log = map (\<lambda>m. StopCall m None) ?ms @ map (\<lambda>m. StartCall m None) ?ms"
  | (start_failed) k err where "k < length ?ms" "out = Failed err"
      "log = map (\<lambda>m. StopCall m None) ?ms @
             (map (\<lambda>m. StartCall m None) (take k ?ms) @ [StartCall (?ms ! k) (Some err)])"
    by auto
  then show ?thesis
  proof cases
    case stop_failed
    then have "\<forall>c \<in> set log. \<not> is_StartCall c" by auto
    moreover from stop_failed have
      "\<forall>c e2. c \<in> set log \<and> is_StopCall c \<and> call_error c = Some e2 \<longrightarrow> e2 = err" by auto
    ultimately show ?thesis using stop_failed(2) by (metis in_set_conv_nth)
  next
    case ok
    have "\<forall>i j. i < length log \<and> j < length log \<and> is_StopCall (log ! i) \<and> is_StartCall (log ! j)
            \<longrightarrow> i < j"
      unfolding ok(2) by (intro allI impI, elim conjE, rule split_log_order) auto
    moreover from ok have "\<forall>c \<in> set log. is_StopCall c \<longrightarrow> call_error c = None" by auto
    ultimately show ?thesis by auto
  next
    case start_failed
    have "\<forall>i j. i < length log \<and> j < length log \<and> is_StopCall (log ! i) \<and> is_StartCall (log ! j)
            \<longrightarrow> i < j"
      unfolding start_failed(3) by (intro allI impI, elim conjE, rule split_log_order) auto
    moreover from start_failed have "\<forall>c \<in> set log. is_StopCall c \<longrightarrow> call_error c = None" by auto
    ultimately show ?thesis by auto
  qed
qed

text \<open>
  Two runs: a restart of two instances, and one whose second stop call fails.
\<close>

theorem Restart_stops_before_starts_witness:
  "Restart (instrumented (demo_collab [])) (demo_exercise [ContainerInstance 0, VmInstance 1]) (2, []) =
     (OK, demo_exercise [ContainerInstance 0, VmInstance 1],
      (2, [StopCall (ContainerInstance 0) None, StopCall (VmInstance 1) None,
           StartCall (ContainerInstance 0) None, StartCall (VmInstance 1) None])) \<and>
   Restart (instrumented (demo_collab []))
     (demo_exercise [ContainerInstance 0, VmInstance 9, VmInstance 1]) (2, []) =
     (Failed ''vm is locked'', demo_exercise [ContainerInstance 0, VmInstance 9, VmInstance 1],
      (2, [StopCall (ContainerInstance 0) None, StopCall (VmInstance 9) (Some ''vm is locked'')]))"
proof -
  have run1: "Restart (instrumented (demo_collab [])) (demo_exercise [ContainerInstance 0, VmInstance 1]) (2, []) =
     (OK, demo_exercise [ContainerInstance 0, VmInstance 1],
      (2, [StopCall (ContainerInstance 0) None, StopCall (VmInstance 1) None,
           StartCall (ContainerInstance 0) None, StartCall (VmInstance 1) None]))"
    by (simp add: Restart_def Stop_def Start_def demo_defs)
  have run2: "Restart (instrumented (demo_collab []))
     (demo_exercise [ContainerInstance 0, VmInstance 9, VmInstance 1]) (2, []) =
     (Failed ''vm is locked'', demo_exercise [ContainerInstance 0, VmInstance 9, VmInstance 1],
      (2, [StopCall (ContainerInstance 0) None, StopCall (VmInstance 9) (Some ''vm is locked'')]))"
    by (simp add: Restart_def Stop_def Start_def demo_defs)
  from Restart_stops_before_starts[OF run1] Restart_stops_before_starts[OF run2] run1 run2
  show ?thesis by blast
qed

section \<open>Properties of Create\<close>

subsection \<open>The body of the loops\<close>

lemma records_loop_eq: "records_loop ipaddr ts acc = acc @ map (default_target ipaddr) ts"
  by (induction ts arbitrary: acc) (simp_all add: default_target_def)

lemma connect_step_Inr:
  assumes "connect_step K i c fr = (Inr d, fr2)"
  shows "\<exists>w2.
    Connect K c (case ips (recv fr) of None \<Rightarrow> [] | Some tab \<Rightarrow> [tab ! i]) (world fr) = (Inr d, w2) \<and>
    (case ips (recv fr) of None \<Rightarrow> True | Some tab \<Rightarrow> i < length tab) \<and>
    fr2 = fr\<lparr>newIps := (if ips (recv fr) = None then newIps fr @ [d] else newIps fr),
             world := w2\<rparr>"
  using assms
  by (auto simp: connect_step_def split: prod.splits sum.splits option.splits if_splits)

lemma connect_step_recv:
  assumes "connect_step K i c fr = (r, fr2)"
  shows "recv fr2 = recv fr \<and> machines_var fr2 = machines_var fr"
  using assms
  by (auto simp: connect_step_def split: prod.splits sum.splits option.splits if_splits)

text \<open>
  One successful pass through the body of the container loop.
\<close>

lemma container_step_OK:
  assumes "container_step K records (i, spec) fr = (OK, fr')"
  shows "\<exists>c w1 d w2.
    CreateContainer K (spec\<lparr>DNS := [dnsIP (recv fr)]\<rparr>) (world fr) = (Inr c, w1) \<and>
    Connect K c (case ips (recv fr) of None \<Rightarrow> [] | Some tab \<Rightarrow> [tab ! i]) w1 = (Inr d, w2) \<and>
    (case ips (recv fr) of None \<Rightarrow> True | Some tab \<Rightarrow> i < length tab) \<and>
    i < length records \<and>
    fr' = fr\<lparr>recv := (recv fr)\<lparr>dnsRecords :=
                    dnsRecords (recv fr) @ map (default_target (FormatIP K d)) (records ! i)\<rparr>,
           machines_var := machines_var fr @ [ContainerInstance c],
           newIps := (if ips (recv fr) = None then newIps fr @ [d] else newIps fr),
           world := w2\<rparr>"
proof -
  obtain r1 w1 where cc: "CreateContainer K (spec\<lparr>DNS := [dnsIP (recv fr)]\<rparr>) (world fr) = (r1, w1)"
    by (metis prod.exhaust)
  show ?thesis
  proof (cases r1)
    case (Inl err)
    with cc assms show ?thesis by (simp add: container_step_def)
  next
    case (Inr c)
    obtain r2 fr2 where cs: "connect_step K i c (fr\<lparr>world := w1\<rparr>) = (r2, fr2)"
      by (metis prod.exhaust)
    show ?thesis
    proof (cases r2)
      case (Inl out)
      with cc Inr cs assms have "out = OK" by (simp add: container_step_def)
      with cs Inl show ?thesis
        by (auto simp: connect_step_def split: prod.splits sum.splits option.splits if_splits)
    next
      case d: (Inr d)
      from connect_step_Inr[OF cs[unfolded d]] obtain w2 where
        conn: "Connect K c (case ips (recv fr) of None \<Rightarrow> [] | Some tab \<Rightarrow> [tab ! i]) w1 = (Inr d, w2)"
        and tab: "case ips (recv fr) of None \<Rightarrow> True | Some tab \<Rightarrow> i < length tab"
        and fr2: "fr2 = fr\<lparr>newIps := (if ips (recv fr) = None then newIps fr @ [d] else newIps fr),
                          world := w2\<rparr>"
        by auto
      from cc Inr cs d assms have len: "i < length records"
        by (simp add: container_step_def split: if_splits)
      with cc Inr cs d assms fr2 have
        "fr' = fr\<lparr>recv := (recv fr)\<lparr>dnsRecords :=
                    dnsRecords (recv fr) @ map (default_target (FormatIP K d)) (records ! i)\<rparr>,
           machines_var := machines_var fr @ [ContainerInstance c],
           newIps := (if ips (recv fr) = None then newIps fr @ [d] else newIps fr),
           world := w2\<rparr>"
        by (auto simp: container_step_def records_loop_eq)
      with cc Inr conn tab len show ?thesis by blast
    qed
  qed
qed

text \<open>
  The loops change \<^verbatim>\<open>e.dnsRecords\<close> and no other field of the receiver.
\<close>

lemma container_step_recv:
  assumes "container_step K records x fr = (out, fr')"
  shows "recv fr' = (recv fr)\<lparr>dnsRecords := dnsRecords (recv fr')\<rparr>"
proof -
  obtain r1 w1 where cc: "CreateContainer K ((snd x)\<lparr>DNS := [dnsIP (recv fr)]\<rparr>) (world fr) = (r1, w1)"
    by (metis prod.exhaust)
  show ?thesis
  proof (cases r1)
    case (Inl err)
    with cc assms show ?thesis by (auto simp: container_step_def)
  next
    case (Inr c)
    obtain r2 fr2 where cs: "connect_step K (fst x) c (fr\<lparr>world := w1\<rparr>) = (r2, fr2)"
      by (metis prod.exhaust)
    from connect_step_recv[OF cs] have "recv fr2 = recv fr" by simp
    with cc Inr cs assms show ?thesis
      by (cases r2) (auto simp: container_step_def split: if_splits)
  qed
qed

lemma vm_step_recv:
  assumes "vm_step K x fr = (out, fr')"
  shows "recv fr' = recv fr \<and> newIps fr' = newIps fr \<and> out \<noteq> Panic"
  using assms
  by (cases fr) (auto simp: vm_step_def split: prod.splits sum.splits)

lemma vm_step_OK:
  assumes "vm_step K spec fr = (OK, fr')"
  shows "\<exists>vm w1. GetCopy K (Image_vbox spec) (Interface K) (world fr) = (Inr vm, w1) \<and>
     fr' = fr\<lparr>machines_var := machines_var fr @ [VmInstance vm], world := w1\<rparr>"
  using assms by (auto simp: vm_step_def split: prod.splits sum.splits)

lemma containers_loop_recv:
  assumes "for_each (container_step K records) xs fr = (out, fr')"
  shows "recv fr' = (recv fr)\<lparr>dnsRecords := dnsRecords (recv fr')\<rparr>"
proof -
  have "\<exists>recs. recv fr' = (recv fr)\<lparr>dnsRecords := recs\<rparr>"
  proof (rule for_each_preserves[where P = "\<lambda>s. \<exists>recs. recv s = (recv fr)\<lparr>dnsRecords := recs\<rparr>", OF _ _ assms])
    fix x s out s'
    assume "container_step K records x s = (out, s')" and "\<exists>recs. recv s = (recv fr)\<lparr>dnsRecords := recs\<rparr>"
    then obtain recs where st: "recv s' = (recv s)\<lparr>dnsRecords := dnsRecords (recv s')\<rparr>"
      and s: "recv s = (recv fr)\<lparr>dnsRecords := recs\<rparr>"
      using container_step_recv by blast
    have "recv s' = (recv fr)\<lparr>dnsRecords := dnsRecords (recv s')\<rparr>"
      by (subst st, subst s) simp
    then show "\<exists>recs. recv s' = (recv fr)\<lparr>dnsRecords := recs\<rparr>" ..
  next
    show "\<exists>recs. recv fr = (recv fr)\<lparr>dnsRecords := recs\<rparr>"
      by (rule exI[of _ "dnsRecords (recv fr)"]) simp
  qed
  then obtain recs where r: "recv fr' = (recv fr)\<lparr>dnsRecords := recs\<rparr>" ..
  then have "dnsRecords (recv fr') = recs" by simp
  with r show ?thesis by simp
qed

lemma vms_loop_recv:
  assumes "for_each (vm_step K) xs fr = (out, fr')"
  shows "recv fr' = recv fr \<and> newIps fr' = newIps fr"
  by (rule for_each_preserves[where P = "\<lambda>s. recv s = recv fr \<and> newIps s = newIps fr", OF _ _ assms])
     (use vm_step_recv in \<open>fastforce+\<close>)

lemma vms_loop_no_panic: "fst (for_each (vm_step K) xs fr) \<noteq> Panic"
proof (induction xs arbitrary: fr)
  case Nil
  then show ?case by simp
next
  case (Cons x xs)
  obtain o1 fr1 where s: "vm_step K x fr = (o1, fr1)" by (cases "vm_step K x fr")
  with vm_step_recv[OF s] Cons.IH[of fr1] show ?case by (cases o1) simp_all
qed

lemma ips_dnsRecords_update: "e' = e\<lparr>dnsRecords := r\<rparr> \<Longrightarrow> ips e' = ips e \<and> machines e' = machines e"
  by simp

lemma container_step_ips:
  assumes "container_step K records x fr = (out, fr')"
  shows "ips (recv fr') = ips (recv fr)"
  using ips_dnsRecords_update[OF container_step_recv[OF assms]] by simp

text \<open>
  \<^verbatim>\<open>Create()\<close> in terms of the outcomes of its two loops.
\<close>

lemma Create_unfold:
  assumes "ContainerOpts (conf e) = (containers, records)"
    and "for_each (container_step K records) (enumerate 0 containers)
           \<lparr>recv = e, machines_var = [], newIps = [], world = w\<rparr> = (o1, fr1)"
    and "for_each (vm_step K) (VBoxConfig (conf e)) fr1 = (o2, fr2)"
  shows "Create K e w =
     (if o1 = OK then
        (if o2 = OK then
           (OK, (if ips (recv fr2) = None then (recv fr2)\<lparr>ips := slice_of (newIps fr2)\<rparr>
                 else recv fr2)\<lparr>machines := machines_var fr2\<rparr>, world fr2)
         else (o2, recv fr2, world fr2))
      else (o1, recv fr1, world fr1))"
  using assms by (cases o1; cases o2) (simp_all add: Create_def)

text \<open>
  A call of \<^verbatim>\<open>Create()\<close> that does not return nil changes \<^verbatim>\<open>e.dnsRecords\<close> at most.
\<close>

lemma Create_not_OK:
  assumes "Create K e w = (out, e', w')" and "out \<noteq> OK"
  shows "e' = e\<lparr>dnsRecords := dnsRecords e'\<rparr>"
proof -
  obtain containers records where opts: "ContainerOpts (conf e) = (containers, records)"
    by (metis prod.exhaust)
  obtain o1 fr1 where l1: "for_each (container_step K records) (enumerate 0 containers)
           \<lparr>recv = e, machines_var = [], newIps = [], world = w\<rparr> = (o1, fr1)"
    by (metis prod.exhaust)
  obtain o2 fr2 where l2: "for_each (vm_step K) (VBoxConfig (conf e)) fr1 = (o2, fr2)"
    by (metis prod.exhaust)
  from containers_loop_recv[OF l1] have r1: "recv fr1 = e\<lparr>dnsRecords := dnsRecords (recv fr1)\<rparr>"
    by simp
  from vms_loop_recv[OF l2] have r2: "recv fr2 = recv fr1" by simp
  from Create_unfold[OF opts l1 l2] assms
  have "e' = recv fr1 \<or> e' = recv fr2" by (auto split: if_splits)
  with r1 r2 show ?thesis by auto
qed

lemma Create_conf:
  assumes "Create K e w = (out, e', w')"
  shows "conf e' = conf e \<and> dnsIP e' = dnsIP e"
proof -
  obtain containers records where opts: "ContainerOpts (conf e) = (containers, records)"
    by (metis prod.exhaust)
  obtain o1 fr1 where l1: "for_each (container_step K records) (enumerate 0 containers)
           \<lparr>recv = e, machines_var = [], newIps = [], world = w\<rparr> = (o1, fr1)"
    by (metis prod.exhaust)
  obtain o2 fr2 where l2: "for_each (vm_step K) (VBoxConfig (conf e)) fr1 = (o2, fr2)"
    by (metis prod.exhaust)
  from containers_loop_recv[OF l1] have r1: "recv fr1 = e\<lparr>dnsRecords := dnsRecords (recv fr1)\<rparr>"
    by simp
  then have c1: "conf (recv fr1) = conf e \<and> dnsIP (recv fr1) = dnsIP e"
    by (metis exercise.select_convs(1,4) exercise.surjective exercise.update_convs(5))
  from vms_loop_recv[OF l2] have r2: "recv fr2 = recv fr1" by simp
  from Create_unfold[OF opts l1 l2] assms c1 r2 show ?thesis
    by (auto split: if_splits)
qed

subsection \<open>The IP allocation table\<close>

text \<open>
  The length of \<^verbatim>\<open>newIps\<close> after a container loop that ran to its end.
\<close>

lemma containers_loop_newIps:
  assumes "for_each (container_step K records) (enumerate i specs) fr = (OK, fr')"
  shows "if ips (recv fr) = None then length (newIps fr') = length (newIps fr) + length specs
         else newIps fr' = newIps fr"
  using assms
proof (induction specs arbitrary: i fr)
  case Nil
  then show ?case by simp
next
  case (Cons spec specs)
  obtain o1 fr1 where s: "container_step K records (i, spec) fr = (o1, fr1)"
    by (metis prod.exhaust)
  with Cons.prems have ok: "o1 = OK" and rest:
    "for_each (container_step K records) (enumerate (Suc i) specs) fr1 = (OK, fr')"
    by (cases o1; simp)+
  from container_step_OK[OF s[unfolded ok]] obtain d where
    n1: "newIps fr1 = (if ips (recv fr) = None then newIps fr @ [d] else newIps fr)"
    and i1: "ips (recv fr1) = ips (recv fr)"
    by auto
  from n1 have "length (newIps fr1) = (if ips (recv fr) = None then Suc (length (newIps fr))
      else length (newIps fr))" by simp
  with Cons.IH[OF rest] n1 i1 show ?case by (auto split: if_splits)
qed

lemma Create_ips:
  assumes "Create K e w = (OK, e', w')"
  shows "case ips e of
           Some tab \<Rightarrow> ips e' = Some tab
         | None \<Rightarrow> (\<exists>nips. length nips = length (fst (ContainerOpts (conf e))) \<and>
                      ips e' = slice_of nips)"
proof -
  obtain containers records where opts: "ContainerOpts (conf e) = (containers, records)"
    by (metis prod.exhaust)
  obtain o1 fr1 where l1: "for_each (container_step K records) (enumerate 0 containers)
           \<lparr>recv = e, machines_var = [], newIps = [], world = w\<rparr> = (o1, fr1)"
    by (metis prod.exhaust)
  obtain o2 fr2 where l2: "for_each (vm_step K) (VBoxConfig (conf e)) fr1 = (o2, fr2)"
    by (metis prod.exhaust)
  from Create_unfold[OF opts l1 l2] assms have ok: "o1 = OK" "o2 = OK"
    and e': "e' = (if ips (recv fr2) = None then (recv fr2)\<lparr>ips := slice_of (newIps fr2)\<rparr>
                 else recv fr2)\<lparr>machines := machines_var fr2\<rparr>"
    by (auto split: if_splits)
  from ips_dnsRecords_update[OF containers_loop_recv[OF l1]] have i1: "ips (recv fr1) = ips e"
    by simp
  from vms_loop_recv[OF l2] have r2: "recv fr2 = recv fr1" "newIps fr2 = newIps fr1" by simp_all
  from containers_loop_newIps[OF l1[unfolded ok]] have
    n: "ips e = None \<Longrightarrow> length (newIps fr1) = length containers" by simp
  show ?thesis
  proof (cases "ips e")
    case None
    with e' i1 r2 have "ips e' = slice_of (newIps fr1)" by simp
    with n[OF None] None opts show ?thesis by auto
  next
    case (Some tab)
    with e' i1 r2 show ?thesis by simp
  qed
qed

text \<open>
  The alignment of the IP table is an invariant of \<^verbatim>\<open>Create()\<close>.
\<close>

lemma Create_ips_aligned:
  assumes "ips_aligned e" and "Create K e w = (out, e', w')"
  shows "ips_aligned e'"
proof (cases "out = OK")
  case False
  from Create_not_OK[OF assms(2) False] have "e' = e\<lparr>dnsRecords := dnsRecords e'\<rparr>" .
  then have "ips e' = ips (e\<lparr>dnsRecords := dnsRecords e'\<rparr>)"
    "conf e' = conf (e\<lparr>dnsRecords := dnsRecords e'\<rparr>)" by simp_all
  then have "ips e' = ips e" "conf e' = conf e" by simp_all
  with assms(1) show ?thesis by (simp add: ips_aligned_def split: option.splits)
next
  case True
  from Create_conf[OF assms(2)] have cf: "conf e' = conf e" by simp
  from Create_ips[OF assms(2)[unfolded True]] assms(1) cf show ?thesis
    by (auto simp: ips_aligned_def slice_of_def split: option.splits if_splits)
qed

lemma Close_OK: "Close K e w = (OK, e', w') \<Longrightarrow> e' = e\<lparr>machines := []\<rparr>"
  by (auto simp: Close_def split: prod.splits outcome.splits)

lemma Start_state: "Start K e w = (out, e', w') \<Longrightarrow> e' = e"
  by (auto simp: Start_def split: prod.splits)

lemma Reset_OK:
  assumes "Reset K e w = (OK, e', w')"
  shows "\<exists>wa eb wb. Close K e w = (OK, e\<lparr>machines := []\<rparr>, wa) \<and>
           Create K (e\<lparr>machines := []\<rparr>) wa = (OK, eb, wb) \<and> Start K eb wb = (OK, e', w')"
proof -
  obtain oa ea wa where c: "Close K e w = (oa, ea, wa)" by (metis prod.exhaust)
  obtain ob eb wb where cr: "Create K ea wa = (ob, eb, wb)" by (metis prod.exhaust)
  obtain oc ec wc where st: "Start K eb wb = (oc, ec, wc)" by (metis prod.exhaust)
  from assms c have oa: "oa = OK" by (cases oa) (simp_all add: Reset_def)
  from assms c cr oa have ob: "ob = OK" by (cases ob) (simp_all add: Reset_def)
  from assms c cr st oa ob have oc: "oc = OK \<and> ec = e' \<and> wc = w'"
    by (cases oc) (simp_all add: Reset_def)
  from Close_OK[OF c[unfolded oa]] c cr st oa ob oc show ?thesis by auto
qed

lemmas create_defs = Create_def container_step_def connect_step_def vm_step_def slice_of_def
  demo_records_def

lemma demo_plain_create:
  "Create (demo_collab []) (demo_exercise []) 0 =
     (OK,
      (demo_exercise [ContainerInstance 0, ContainerInstance 1, VmInstance 2])
        \<lparr>ips := Some [2, 3], dnsRecords := demo_records\<rparr>, 3)"
  by (simp add: create_defs demo_defs)

lemma demo_plain_reset:
  "Reset (demo_collab [])
     ((demo_exercise [ContainerInstance 0, ContainerInstance 1, VmInstance 2])
        \<lparr>ips := Some [2, 3], dnsRecords := demo_records\<rparr>) 3 =
     (OK,
      (demo_exercise [ContainerInstance 3, ContainerInstance 4, VmInstance 5])
        \<lparr>ips := Some [2, 3], dnsRecords := demo_records @ demo_records\<rparr>, 6)"
  by (simp add: Reset_def Close_def Start_def create_defs demo_defs)

text \<open>
  Claim C3. After a call of \<^verbatim>\<open>Create()\<close> that returned nil, a call of \<^verbatim>\<open>Reset()\<close> that
  returns nil leaves the IP allocation table as that \<^verbatim>\<open>Create()\<close> left it: the same octets in
  the same order.
\<close>

theorem Reset_keeps_ips:
  assumes "Create K e w = (OK, e1, w1)" and "Reset K e1 w1 = (OK, e2, w2)"
  shows "ips e2 = ips e1"
proof -
  from Reset_OK[OF assms(2)] obtain wa eb wb where
    create2: "Create K (e1\<lparr>machines := []\<rparr>) wa = (OK, eb, wb)"
    and start: "Start K eb wb = (OK, e2, w2)" by blast
  from Start_state[OF start] have e2: "e2 = eb" .
  note first = Create_ips[OF assms(1)]
  note second = Create_ips[OF create2]
  from Create_conf[OF assms(1)] have cf: "conf e1 = conf e" by simp
  show ?thesis
  proof (cases "ips e1")
    case (Some tab)
    with second e2 show ?thesis by simp
  next
    case None
    with first have "ips e = None" by (cases "ips e") simp_all
    with first None obtain nips where
      "length nips = length (fst (ContainerOpts (conf e)))" "slice_of nips = None"
      by auto
    then have "length (fst (ContainerOpts (conf e))) = 0"
      by (simp add: slice_of_def split: if_splits)
    with second None cf have "ips eb = None"
      by (auto simp: slice_of_def)
    with None e2 show ?thesis by simp
  qed
qed

text \<open>
  The example exercise: the table is \<open>[2, 3]\<close> after the first creation and after the reset.
\<close>

theorem Reset_keeps_ips_witness:
  "Create (demo_collab []) (demo_exercise []) 0 =
     (OK,
      (demo_exercise [ContainerInstance 0, ContainerInstance 1, VmInstance 2])
        \<lparr>ips := Some [2, 3], dnsRecords := demo_records\<rparr>, 3) \<and>
   Reset (demo_collab [])
     ((demo_exercise [ContainerInstance 0, ContainerInstance 1, VmInstance 2])
        \<lparr>ips := Some [2, 3], dnsRecords := demo_records\<rparr>) 3 =
     (OK,
      (demo_exercise [ContainerInstance 3, ContainerInstance 4, VmInstance 5])
        \<lparr>ips := Some [2, 3], dnsRecords := demo_records @ demo_records\<rparr>, 6) \<and>
   ips ((demo_exercise [ContainerInstance 3, ContainerInstance 4, VmInstance 5])
        \<lparr>ips := Some [2, 3], dnsRecords := demo_records @ demo_records\<rparr>) =
   ips ((demo_exercise [ContainerInstance 0, ContainerInstance 1, VmInstance 2])
        \<lparr>ips := Some [2, 3], dnsRecords := demo_records\<rparr>)"
  using Reset_keeps_ips[OF demo_plain_create demo_plain_reset] demo_plain_create demo_plain_reset
  by blast

subsection \<open>Indexing the table\<close>

lemma succeeding_CreateContainer:
  assumes "succeeding K"
  shows "\<exists>c w1. CreateContainer K spec w = (Inr c, w1)"
proof -
  obtain r w1 where c: "CreateContainer K spec w = (r, w1)" by (metis prod.exhaust)
  from assms have "\<not> isl (fst (CreateContainer K spec w))" by (simp add: succeeding_def)
  with c show ?thesis by (cases r) auto
qed

lemma succeeding_Connect:
  assumes "succeeding K"
  shows "\<exists>d w1. Connect K c ip w = (Inr d, w1)"
proof -
  obtain r w1 where c: "Connect K c ip w = (r, w1)" by (metis prod.exhaust)
  from assms have "\<not> isl (fst (Connect K c ip w))" by (simp add: succeeding_def)
  with c show ?thesis by (cases r) auto
qed

lemma succeeding_GetCopy:
  assumes "succeeding K"
  shows "\<exists>vm w1. GetCopy K img bridge w = (Inr vm, w1)"
proof -
  obtain r w1 where c: "GetCopy K img bridge w = (r, w1)" by (metis prod.exhaust)
  from assms have "\<not> isl (fst (GetCopy K img bridge w))" by (simp add: succeeding_def)
  with c show ?thesis by (cases r) auto
qed

text \<open>
  The outcome of one pass through the body of the container loop.
\<close>

lemma container_step_no_panic:
  assumes "i < length records"
    and "case ips (recv fr) of None \<Rightarrow> True | Some tab \<Rightarrow> i < length tab"
  shows "fst (container_step K records (i, spec) fr) \<noteq> Panic"
proof -
  obtain r1 w1 where cc: "CreateContainer K (spec\<lparr>DNS := [dnsIP (recv fr)]\<rparr>) (world fr) = (r1, w1)"
    by (metis prod.exhaust)
  show ?thesis
  proof (cases r1)
    case (Inl err)
    with cc show ?thesis by (simp add: container_step_def)
  next
    case (Inr c)
    obtain r2 fr2 where cs: "connect_step K i c (fr\<lparr>world := w1\<rparr>) = (r2, fr2)"
      by (metis prod.exhaust)
    with assms(2) have "r2 \<noteq> Inl Panic"
      by (auto simp: connect_step_def split: prod.splits sum.splits option.splits)
    with cc Inr cs assms(1) show ?thesis
      by (cases r2) (auto simp: container_step_def)
  qed
qed

lemma container_step_succeeds:
  assumes "succeeding K" and "i < length records"
    and "case ips (recv fr) of None \<Rightarrow> True | Some tab \<Rightarrow> i < length tab"
  shows "fst (container_step K records (i, spec) fr) = OK"
proof -
  from succeeding_CreateContainer[OF assms(1)] obtain c w1 where
    cc: "CreateContainer K (spec\<lparr>DNS := [dnsIP (recv fr)]\<rparr>) (world fr) = (Inr c, w1)"
    by blast
  from succeeding_Connect[OF assms(1)] obtain d w2 where
    conn: "Connect K c (case ips (recv fr) of None \<Rightarrow> [] | Some tab \<Rightarrow> [tab ! i]) w1 = (Inr d, w2)"
    by blast
  with assms(3) have "fst (connect_step K i c (fr\<lparr>world := w1\<rparr>)) = Inr d"
    by (auto simp: connect_step_def split: option.splits)
  with cc assms(2) show ?thesis
    by (auto simp: container_step_def split: prod.splits sum.splits)
qed

lemma container_step_short_table:
  assumes "succeeding K" and "ips (recv fr) = Some tab" and "length tab \<le> i"
  shows "fst (container_step K records (i, spec) fr) = Panic"
proof -
  from succeeding_CreateContainer[OF assms(1)] obtain c w1 where
    cc: "CreateContainer K (spec\<lparr>DNS := [dnsIP (recv fr)]\<rparr>) (world fr) = (Inr c, w1)"
    by blast
  from assms(2,3) have "fst (connect_step K i c (fr\<lparr>world := w1\<rparr>)) = Inl Panic"
    by (simp add: connect_step_def)
  with cc show ?thesis
    by (auto simp: container_step_def split: prod.splits sum.splits)
qed

lemma container_step_short_records:
  assumes "succeeding K" and "length records \<le> i"
  shows "fst (container_step K records (i, spec) fr) = Panic"
proof -
  from succeeding_CreateContainer[OF assms(1)] obtain c w1 where
    cc: "CreateContainer K (spec\<lparr>DNS := [dnsIP (recv fr)]\<rparr>) (world fr) = (Inr c, w1)"
    by blast
  obtain r2 fr2 where cs: "connect_step K i c (fr\<lparr>world := w1\<rparr>) = (r2, fr2)"
    by (metis prod.exhaust)
  from succeeding_Connect[OF assms(1)] have
    "\<And>ip. \<exists>d w2. Connect K c ip w1 = (Inr d, w2)" by blast
  then have "\<And>ip err w2. Connect K c ip w1 \<noteq> (Inl err, w2)" by (metis Pair_inject sum.distinct(1))
  with cs have "r2 = Inl Panic \<or> \<not> isl r2"
    by (auto simp: connect_step_def split: prod.splits sum.splits option.splits if_splits)
  with cc cs assms(2) show ?thesis
    by (cases r2) (auto simp: container_step_def)
qed

lemma containers_no_panic:
  assumes "i + length specs \<le> length records"
    and "case ips (recv fr) of None \<Rightarrow> True | Some tab \<Rightarrow> i + length specs \<le> length tab"
  shows "fst (for_each (container_step K records) (enumerate i specs) fr) \<noteq> Panic"
  using assms
proof (induction specs arbitrary: i fr)
  case Nil
  then show ?case by simp
next
  case (Cons spec specs)
  obtain o1 fr1 where s: "container_step K records (i, spec) fr = (o1, fr1)"
    by (metis prod.exhaust)
  from Cons.prems have here: "i < length records"
    "case ips (recv fr) of None \<Rightarrow> True | Some tab \<Rightarrow> i < length tab"
    by (auto split: option.splits)
  from container_step_no_panic[OF here, of K spec] s have np: "o1 \<noteq> Panic" by simp
  from container_step_ips[OF s] Cons.prems have later: "Suc i + length specs \<le> length records"
    "case ips (recv fr1) of None \<Rightarrow> True | Some tab \<Rightarrow> Suc i + length specs \<le> length tab"
    by (auto split: option.splits)
  from Cons.IH[OF later] s np show ?case by (cases o1) simp_all
qed

lemma containers_succeed:
  assumes "succeeding K" and "i + length specs \<le> length records"
    and "case ips (recv fr) of None \<Rightarrow> True | Some tab \<Rightarrow> i + length specs \<le> length tab"
  shows "fst (for_each (container_step K records) (enumerate i specs) fr) = OK"
  using assms(2,3)
proof (induction specs arbitrary: i fr)
  case Nil
  then show ?case by simp
next
  case (Cons spec specs)
  obtain o1 fr1 where s: "container_step K records (i, spec) fr = (o1, fr1)"
    by (metis prod.exhaust)
  from Cons.prems have here: "i < length records"
    "case ips (recv fr) of None \<Rightarrow> True | Some tab \<Rightarrow> i < length tab"
    by (auto split: option.splits)
  from container_step_succeeds[OF assms(1) here, of spec] s have ok: "o1 = OK" by simp
  from container_step_ips[OF s] Cons.prems have later: "Suc i + length specs \<le> length records"
    "case ips (recv fr1) of None \<Rightarrow> True | Some tab \<Rightarrow> Suc i + length specs \<le> length tab"
    by (auto split: option.splits)
  from Cons.IH[OF later] s ok show ?case by simp
qed

lemma containers_short_table:
  assumes "succeeding K" and "ips (recv fr) = Some tab"
    and "i \<le> length tab" and "length tab < i + length specs"
  shows "fst (for_each (container_step K records) (enumerate i specs) fr) = Panic"
  using assms(2,3,4)
proof (induction specs arbitrary: i fr)
  case Nil
  then show ?case by simp
next
  case (Cons spec specs)
  obtain o1 fr1 where s: "container_step K records (i, spec) fr = (o1, fr1)"
    by (metis prod.exhaust)
  show ?case
  proof (cases "i < length tab \<and> i < length records")
    case True
    with Cons.prems(1) have "case ips (recv fr) of None \<Rightarrow> True | Some tab \<Rightarrow> i < length tab"
      by simp
    from container_step_succeeds[OF assms(1) _ this, of records spec] True s
    have ok: "o1 = OK" by simp
    from container_step_ips[OF s] Cons.prems(1) have "ips (recv fr1) = Some tab" by simp
    from Cons.IH[OF this] True Cons.prems(3) s ok show ?thesis by simp
  next
    case False
    then have "length tab \<le> i \<or> length records \<le> i" by auto
    with container_step_short_table[OF assms(1) Cons.prems(1), of i records spec]
      container_step_short_records[OF assms(1), of records i spec fr] s
    have "o1 = Panic" by auto
    with s show ?thesis by simp
  qed
qed

lemma vms_succeed:
  assumes "succeeding K"
  shows "fst (for_each (vm_step K) xs fr) = OK"
proof (induction xs arbitrary: fr)
  case Nil
  then show ?case by simp
next
  case (Cons x xs)
  from succeeding_GetCopy[OF assms] obtain vm w1 where
    "GetCopy K (Image_vbox x) (Interface K) (world fr) = (Inr vm, w1)" by blast
  with Cons.IH show ?case by (simp add: vm_step_def)
qed

lemma demo_succeeding: "succeeding (demo_collab [])"
  by (simp add: succeeding_def demo_collab_def split: list.splits)

text \<open>
  Claim C10. When \<^verbatim>\<open>Create()\<close> runs with a table that is not nil and has one entry per
  container specification (and \<^verbatim>\<open>ContainerOpts()\<close> returns one list of records per
  container), no index is out of range: the call does not panic. With a table that is not
  nil and shorter than the list of container specifications, and collaborators that
  succeed, the call panics on an index out of range.
\<close>

theorem Create_table_indexing:
  "(ips e = Some tab \<and> length tab = length (fst (ContainerOpts (conf e))) \<and>
      records_aligned (conf e) \<longrightarrow> fst (Create K e w) \<noteq> Panic) \<and>
   (ips e2 = Some tab2 \<and> length tab2 < length (fst (ContainerOpts (conf e2))) \<and>
      succeeding K2 \<longrightarrow> fst (Create K2 e2 w2) = Panic)"
proof (intro conjI impI)
  assume a: "ips e = Some tab \<and> length tab = length (fst (ContainerOpts (conf e))) \<and>
      records_aligned (conf e)"
  obtain containers records where opts: "ContainerOpts (conf e) = (containers, records)"
    by (metis prod.exhaust)
  obtain o1 fr1 where l1: "for_each (container_step K records) (enumerate 0 containers)
           \<lparr>recv = e, machines_var = [], newIps = [], world = w\<rparr> = (o1, fr1)"
    by (metis prod.exhaust)
  obtain o2 fr2 where l2: "for_each (vm_step K) (VBoxConfig (conf e)) fr1 = (o2, fr2)"
    by (metis prod.exhaust)
  from a opts have "0 + length containers \<le> length records"
    "case ips (recv \<lparr>recv = e, machines_var = [], newIps = [], world = w\<rparr>) of
       None \<Rightarrow> True | Some tab \<Rightarrow> 0 + length containers \<le> length tab"
    by (simp_all add: records_aligned_def)
  from containers_no_panic[OF this, of K] l1 have "o1 \<noteq> Panic" by simp
  moreover from vms_loop_no_panic[of K "VBoxConfig (conf e)" fr1] l2 have "o2 \<noteq> Panic" by simp
  ultimately show "fst (Create K e w) \<noteq> Panic"
    by (simp add: Create_unfold[OF opts l1 l2])
next
  assume a: "ips e2 = Some tab2 \<and> length tab2 < length (fst (ContainerOpts (conf e2))) \<and>
      succeeding K2"
  obtain containers records where opts: "ContainerOpts (conf e2) = (containers, records)"
    by (metis prod.exhaust)
  obtain o1 fr1 where l1: "for_each (container_step K2 records) (enumerate 0 containers)
           \<lparr>recv = e2, machines_var = [], newIps = [], world = w2\<rparr> = (o1, fr1)"
    by (metis prod.exhaust)
  obtain o2 fr2 where l2: "for_each (vm_step K2) (VBoxConfig (conf e2)) fr1 = (o2, fr2)"
    by (metis prod.exhaust)
  from a opts have "succeeding K2"
    "ips (recv \<lparr>recv = e2, machines_var = [], newIps = [], world = w2\<rparr>) = Some tab2"
    "0 \<le> length tab2" "length tab2 < 0 + length containers"
    by simp_all
  from containers_short_table[OF this, of records] l1 have "o1 = Panic" by simp
  then show "fst (Create K2 e2 w2) = Panic"
    by (simp add: Create_unfold[OF opts l1 l2])
qed

text \<open>
  A table of two entries and a table of one entry for the two containers of the example.
\<close>

theorem Create_table_indexing_witness:
  "ips ((demo_exercise [])\<lparr>ips := Some [7, 9]\<rparr>) = Some [7, 9] \<and>
   length [7, 9 :: int] = length (fst (ContainerOpts (conf ((demo_exercise [])\<lparr>ips := Some [7, 9]\<rparr>)))) \<and>
   records_aligned (conf ((demo_exercise [])\<lparr>ips := Some [7, 9]\<rparr>)) \<and>
   fst (Create (demo_collab []) ((demo_exercise [])\<lparr>ips := Some [7, 9]\<rparr>) 0) = OK \<and>
   ips ((demo_exercise [])\<lparr>ips := Some [7]\<rparr>) = Some [7] \<and>
   length [7 :: int] < length (fst (ContainerOpts (conf ((demo_exercise [])\<lparr>ips := Some [7]\<rparr>)))) \<and>
   succeeding (demo_collab []) \<and>
   fst (Create (demo_collab []) ((demo_exercise [])\<lparr>ips := Some [7]\<rparr>) 0) = Panic"
proof -
  have a: "ips ((demo_exercise [])\<lparr>ips := Some [7, 9]\<rparr>) = Some [7, 9] \<and>
    length [7, 9 :: int] = length (fst (ContainerOpts (conf ((demo_exercise [])\<lparr>ips := Some [7, 9]\<rparr>)))) \<and>
    records_aligned (conf ((demo_exercise [])\<lparr>ips := Some [7, 9]\<rparr>))"
    by (simp add: records_aligned_def demo_exercise_def demo_conf_def)
  have b: "ips ((demo_exercise [])\<lparr>ips := Some [7]\<rparr>) = Some [7] \<and>
    length [7 :: int] < length (fst (ContainerOpts (conf ((demo_exercise [])\<lparr>ips := Some [7]\<rparr>)))) \<and>
    succeeding (demo_collab [])"
    using demo_succeeding by (simp add: demo_exercise_def demo_conf_def)
  have c: "fst (Create (demo_collab []) ((demo_exercise [])\<lparr>ips := Some [7, 9]\<rparr>) 0) = OK"
    by (simp add: create_defs demo_defs)
  from Create_table_indexing[of "(demo_exercise [])\<lparr>ips := Some [7, 9]\<rparr>" "[7, 9]"
      "demo_collab []" 0 "(demo_exercise [])\<lparr>ips := Some [7]\<rparr>" "[7]" "demo_collab []" 0] a b c
  show ?thesis by blast
qed

subsection \<open>What an instrumented run of Create logs\<close>

lemma instrumented_simps:
  "CreateContainer (instrumented K) spec wl =
     (case CreateContainer K spec (fst wl) of
        (r, w') \<Rightarrow> (r, (w', snd wl @ [CreateContainerCall spec r])))"
  "Connect (instrumented K) c ip wl =
     (case Connect K c ip (fst wl) of (r, w') \<Rightarrow> (r, (w', snd wl @ [ConnectCall c ip r])))"
  "GetCopy (instrumented K) img bridge wl =
     (case GetCopy K img bridge (fst wl) of
        (r, w') \<Rightarrow> (r, (w', snd wl @ [GetCopyCall img bridge r])))"
  "FormatIP (instrumented K) = FormatIP K"
  "Interface (instrumented K) = Interface K"
  by (simp_all add: instrumented_def logging_def)

lemma fst_case_log: "fst (case p of (r, w') \<Rightarrow> (r, g r w')) = fst p"
  by (cases p) simp

lemma succeeding_instrumented: "succeeding K \<Longrightarrow> succeeding (instrumented K)"
  by (simp add: succeeding_def instrumented_simps fst_case_log)

lemma provisioned_append: "provisioned (xs @ ys) = provisioned xs @ provisioned ys"
  by (simp add: provisioned_def)

lemma octets_append: "octets (xs @ ys) = octets xs @ octets ys"
  by (simp add: octets_def)

lemma container_step_OK_log:
  assumes "container_step (instrumented K) records (i, spec) fr = (OK, fr')"
  shows "\<exists>c d.
    snd (world fr') = snd (world fr) @
      [CreateContainerCall (spec\<lparr>DNS := [dnsIP (recv fr)]\<rparr>) (Inr c),
       ConnectCall c (case ips (recv fr) of None \<Rightarrow> [] | Some tab \<Rightarrow> [tab ! i]) (Inr d)] \<and>
    i < length records \<and>
    recv fr' = (recv fr)\<lparr>dnsRecords :=
                 dnsRecords (recv fr) @ map (default_target (FormatIP K d)) (records ! i)\<rparr> \<and>
    machines_var fr' = machines_var fr @ [ContainerInstance c] \<and>
    newIps fr' = (if ips (recv fr) = None then newIps fr @ [d] else newIps fr)"
proof -
  from container_step_OK[OF assms] obtain c w1 d w2 where
    cc: "CreateContainer (instrumented K) (spec\<lparr>DNS := [dnsIP (recv fr)]\<rparr>) (world fr) = (Inr c, w1)"
    and conn: "Connect (instrumented K) c
        (case ips (recv fr) of None \<Rightarrow> [] | Some tab \<Rightarrow> [tab ! i]) w1 = (Inr d, w2)"
    and len: "i < length records"
    and fr': "fr' = fr\<lparr>recv := (recv fr)\<lparr>dnsRecords :=
                    dnsRecords (recv fr) @
                    map (default_target (FormatIP (instrumented K) d)) (records ! i)\<rparr>,
           machines_var := machines_var fr @ [ContainerInstance c],
           newIps := (if ips (recv fr) = None then newIps fr @ [d] else newIps fr),
           world := w2\<rparr>"
    by blast
  from cc have w1: "snd w1 = snd (world fr) @
      [CreateContainerCall (spec\<lparr>DNS := [dnsIP (recv fr)]\<rparr>) (Inr c)]"
    by (auto simp: instrumented_simps split: prod.splits)
  from conn have w2: "snd w2 = snd w1 @
      [ConnectCall c (case ips (recv fr) of None \<Rightarrow> [] | Some tab \<Rightarrow> [tab ! i]) (Inr d)]"
    by (auto simp: instrumented_simps split: prod.splits)
  from fr' w1 w2 len show ?thesis by (simp add: instrumented_simps)
qed

lemma containers_OK_log:
  assumes "for_each (container_step (instrumented K) records) (enumerate i specs) fr = (OK, fr')"
  shows "\<exists>new. snd (world fr') = snd (world fr) @ new \<and>
      machines_var fr' = machines_var fr @ map snd (provisioned new) \<and>
      map fst (provisioned new) = map (\<lambda>s. Inl (s\<lparr>DNS := [dnsIP (recv fr)]\<rparr>)) specs \<and>
      length (octets new) = length specs \<and>
      dnsRecords (recv fr') = dnsRecords (recv fr) @
        concat (map2 (\<lambda>d ts. map (default_target (FormatIP K d)) ts) (octets new) (drop i records)) \<and>
      newIps fr' = newIps fr @ (if ips (recv fr) = None then octets new else [])"
  using assms
proof (induction specs arbitrary: i fr)
  case Nil
  then show ?case by (simp add: provisioned_def octets_def)
next
  case (Cons spec specs)
  obtain o1 fr1 where s: "container_step (instrumented K) records (i, spec) fr = (o1, fr1)"
    by (metis prod.exhaust)
  with Cons.prems have ok: "o1 = OK" and rest:
    "for_each (container_step (instrumented K) records) (enumerate (Suc i) specs) fr1 = (OK, fr')"
    by (cases o1; simp)+
  from container_step_OK_log[OF s[unfolded ok]] obtain c d where
    log1: "snd (world fr1) = snd (world fr) @
      [CreateContainerCall (spec\<lparr>DNS := [dnsIP (recv fr)]\<rparr>) (Inr c),
       ConnectCall c (case ips (recv fr) of None \<Rightarrow> [] | Some tab \<Rightarrow> [tab ! i]) (Inr d)]"
    and len: "i < length records"
    and recv1: "recv fr1 = (recv fr)\<lparr>dnsRecords :=
                 dnsRecords (recv fr) @ map (default_target (FormatIP K d)) (records ! i)\<rparr>"
    and ms1: "machines_var fr1 = machines_var fr @ [ContainerInstance c]"
    and nips1: "newIps fr1 = (if ips (recv fr) = None then newIps fr @ [d] else newIps fr)"
    by blast
  from Cons.IH[OF rest] obtain new2 where
    log2: "snd (world fr') = snd (world fr1) @ new2"
    and ms2: "machines_var fr' = machines_var fr1 @ map snd (provisioned new2)"
    and req2: "map fst (provisioned new2) = map (\<lambda>s. Inl (s\<lparr>DNS := [dnsIP (recv fr1)]\<rparr>)) specs"
    and oct2: "length (octets new2) = length specs"
    and dns2: "dnsRecords (recv fr') = dnsRecords (recv fr1) @
        concat (map2 (\<lambda>d ts. map (default_target (FormatIP K d)) ts) (octets new2)
                  (drop (Suc i) records))"
    and nips2: "newIps fr' = newIps fr1 @ (if ips (recv fr1) = None then octets new2 else [])"
    by blast
  let ?new1 = "[CreateContainerCall (spec\<lparr>DNS := [dnsIP (recv fr)]\<rparr>) (Inr c),
       ConnectCall c (case ips (recv fr) of None \<Rightarrow> [] | Some tab \<Rightarrow> [tab ! i]) (Inr d)]"
  have p1: "provisioned ?new1 = [(Inl (spec\<lparr>DNS := [dnsIP (recv fr)]\<rparr>), ContainerInstance c)]"
    by (simp add: provisioned_def)
  have o1: "octets ?new1 = [d]" by (simp add: octets_def)
  from recv1 have same: "dnsIP (recv fr1) = dnsIP (recv fr)" "ips (recv fr1) = ips (recv fr)"
    "dnsRecords (recv fr1) = dnsRecords (recv fr) @ map (default_target (FormatIP K d)) (records ! i)"
    by simp_all
  from len have dr: "drop i records = records ! i # drop (Suc i) records"
    by (simp add: Cons_nth_drop_Suc)
  have "snd (world fr') = snd (world fr) @ (?new1 @ new2)"
    using log1 log2 by simp
  moreover have "machines_var fr' = machines_var fr @ map snd (provisioned (?new1 @ new2))"
    unfolding provisioned_append p1 using ms1 ms2 by simp
  moreover have "map fst (provisioned (?new1 @ new2)) =
      map (\<lambda>s. Inl (s\<lparr>DNS := [dnsIP (recv fr)]\<rparr>)) (spec # specs)"
    unfolding provisioned_append p1 using req2 same by simp
  moreover have "length (octets (?new1 @ new2)) = length (spec # specs)"
    unfolding octets_append o1 using oct2 by simp
  moreover have "dnsRecords (recv fr') = dnsRecords (recv fr) @
        concat (map2 (\<lambda>d ts. map (default_target (FormatIP K d)) ts) (octets (?new1 @ new2))
                  (drop i records))"
    unfolding octets_append o1 dr using dns2 same by simp
  moreover have "newIps fr' = newIps fr @ (if ips (recv fr) = None then octets (?new1 @ new2) else [])"
    unfolding octets_append o1 using nips1 nips2 same by simp
  ultimately show ?case by blast
qed

lemma vm_step_OK_log:
  assumes "vm_step (instrumented K) spec fr = (OK, fr')"
  shows "\<exists>vm. snd (world fr') = snd (world fr) @
           [GetCopyCall (Image_vbox spec) (Interface K) (Inr vm)] \<and>
         machines_var fr' = machines_var fr @ [VmInstance vm]"
proof -
  from vm_step_OK[OF assms] obtain vm w1 where
    gc: "GetCopy (instrumented K) (Image_vbox spec) (Interface (instrumented K)) (world fr) = (Inr vm, w1)"
    and fr': "fr' = fr\<lparr>machines_var := machines_var fr @ [VmInstance vm], world := w1\<rparr>"
    by blast
  from gc have "snd w1 = snd (world fr) @ [GetCopyCall (Image_vbox spec) (Interface K) (Inr vm)]"
    by (auto simp: instrumented_simps split: prod.splits)
  with fr' show ?thesis by simp
qed

lemma vms_OK_log:
  assumes "for_each (vm_step (instrumented K)) specs fr = (OK, fr')"
  shows "\<exists>new. snd (world fr') = snd (world fr) @ new \<and>
      machines_var fr' = machines_var fr @ map snd (provisioned new) \<and>
      map fst (provisioned new) = map (\<lambda>s. Inr (Image_vbox s, Interface K)) specs \<and>
      octets new = []"
  using assms
proof (induction specs arbitrary: fr)
  case Nil
  then show ?case by (simp add: provisioned_def octets_def)
next
  case (Cons spec specs)
  obtain o1 fr1 where s: "vm_step (instrumented K) spec fr = (o1, fr1)"
    by (metis prod.exhaust)
  with Cons.prems have ok: "o1 = OK" and rest:
    "for_each (vm_step (instrumented K)) specs fr1 = (OK, fr')"
    by (cases o1; simp)+
  from vm_step_OK_log[OF s[unfolded ok]] obtain vm where
    log1: "snd (world fr1) = snd (world fr) @ [GetCopyCall (Image_vbox spec) (Interface K) (Inr vm)]"
    and ms1: "machines_var fr1 = machines_var fr @ [VmInstance vm]"
    by blast
  from Cons.IH[OF rest] obtain new2 where
    log2: "snd (world fr') = snd (world fr1) @ new2"
    and ms2: "machines_var fr' = machines_var fr1 @ map snd (provisioned new2)"
    and req2: "map fst (provisioned new2) = map (\<lambda>s. Inr (Image_vbox s, Interface K)) specs"
    and oct2: "octets new2 = []"
    by blast
  let ?new1 = "[GetCopyCall (Image_vbox spec) (Interface K) (Inr vm)]"
  have p1: "provisioned ?new1 = [(Inr (Image_vbox spec, Interface K), VmInstance vm)]"
    by (simp add: provisioned_def)
  have o1: "octets ?new1 = []" by (simp add: octets_def)
  have "snd (world fr') = snd (world fr) @ (?new1 @ new2)"
    using log1 log2 by simp
  moreover have "machines_var fr' = machines_var fr @ map snd (provisioned (?new1 @ new2))"
    unfolding provisioned_append p1 using ms1 ms2 by simp
  moreover have "map fst (provisioned (?new1 @ new2)) =
      map (\<lambda>s. Inr (Image_vbox s, Interface K)) (spec # specs)"
    unfolding provisioned_append p1 using req2 by simp
  moreover have "octets (?new1 @ new2) = []"
    unfolding octets_append o1 using oct2 by simp
  ultimately show ?case by blast
qed

lemma Create_OK_log:
  assumes run: "Create (instrumented K) e (w, []) = (OK, e', (w', log))"
    and opts: "ContainerOpts (conf e) = (containers, records)"
  shows "machines e' = map snd (provisioned log) \<and>
    map fst (provisioned log) =
      map (\<lambda>s. Inl (s\<lparr>DNS := [dnsIP e]\<rparr>)) containers @
      map (\<lambda>s. Inr (Image_vbox s, Interface K)) (VBoxConfig (conf e)) \<and>
    length (octets log) = length containers \<and>
    dnsRecords e' = dnsRecords e @
      concat (map2 (\<lambda>d ts. map (default_target (FormatIP K d)) ts) (octets log) records) \<and>
    ips e' = (case ips e of None \<Rightarrow> slice_of (octets log) | Some tab \<Rightarrow> Some tab)"
proof -
  let ?KI = "instrumented K"
  obtain o1 fr1 where l1: "for_each (container_step ?KI records) (enumerate 0 containers)
           \<lparr>recv = e, machines_var = [], newIps = [], world = (w, [])\<rparr> = (o1, fr1)"
    by (metis prod.exhaust)
  obtain o2 fr2 where l2: "for_each (vm_step ?KI) (VBoxConfig (conf e)) fr1 = (o2, fr2)"
    by (metis prod.exhaust)
  from Create_unfold[OF opts l1 l2] run have ok: "o1 = OK" "o2 = OK"
    and e': "e' = (if ips (recv fr2) = None then (recv fr2)\<lparr>ips := slice_of (newIps fr2)\<rparr>
                 else recv fr2)\<lparr>machines := machines_var fr2\<rparr>"
    and w': "world fr2 = (w', log)"
    by (auto split: if_splits)
  from containers_OK_log[OF l1[unfolded ok]] obtain new1 where
    log1: "snd (world fr1) = new1"
    and ms1: "machines_var fr1 = map snd (provisioned new1)"
    and req1: "map fst (provisioned new1) = map (\<lambda>s. Inl (s\<lparr>DNS := [dnsIP e]\<rparr>)) containers"
    and oct1: "length (octets new1) = length containers"
    and dns1: "dnsRecords (recv fr1) = dnsRecords e @
        concat (map2 (\<lambda>d ts. map (default_target (FormatIP K d)) ts) (octets new1) records)"
    and nips1: "newIps fr1 = (if ips e = None then octets new1 else [])"
    by auto
  from vms_OK_log[OF l2[unfolded ok]] obtain new2 where
    log2: "snd (world fr2) = snd (world fr1) @ new2"
    and ms2: "machines_var fr2 = machines_var fr1 @ map snd (provisioned new2)"
    and req2: "map fst (provisioned new2) =
        map (\<lambda>s. Inr (Image_vbox s, Interface K)) (VBoxConfig (conf e))"
    and oct2: "octets new2 = []"
    by blast
  from ips_dnsRecords_update[OF containers_loop_recv[OF l1]] have i1: "ips (recv fr1) = ips e"
    by simp
  from vms_loop_recv[OF l2] have r2: "recv fr2 = recv fr1" "newIps fr2 = newIps fr1" by simp_all
  from w' log1 log2 have log: "log = new1 @ new2" by simp
  have "machines e' = map snd (provisioned log)"
    unfolding log provisioned_append using e' ms1 ms2 by simp
  moreover have "map fst (provisioned log) =
      map (\<lambda>s. Inl (s\<lparr>DNS := [dnsIP e]\<rparr>)) containers @
      map (\<lambda>s. Inr (Image_vbox s, Interface K)) (VBoxConfig (conf e))"
    unfolding log provisioned_append using req1 req2 by simp
  moreover have "length (octets log) = length containers"
    unfolding log octets_append using oct1 oct2 by simp
  moreover have "dnsRecords e' = dnsRecords e @
      concat (map2 (\<lambda>d ts. map (default_target (FormatIP K d)) ts) (octets log) records)"
    unfolding log octets_append using e' r2 dns1 oct2 by simp
  moreover have "ips e' = (case ips e of None \<Rightarrow> slice_of (octets log) | Some tab \<Rightarrow> Some tab)"
    unfolding log octets_append using e' r2 i1 nips1 oct2 by (simp split: option.splits)
  ultimately show ?thesis by blast
qed

lemma provisioned_kinds:
  "\<forall>p \<in> set (provisioned log). isl (fst p) = is_container (snd p)"
proof (induction log)
  case Nil
  then show ?case by (simp add: provisioned_def)
next
  case (Cons c log)
  have "\<forall>p \<in> set (provisioned_by c). isl (fst p) = is_container (snd p)"
    by (cases c) (auto simp: is_container_def split: sum.splits)
  with Cons show ?case by (auto simp: provisioned_def)
qed

lemma kinds_split:
  assumes "\<forall>p \<in> set ps. isl (fst p) = is_container (snd p)"
    and "map fst ps = map Inl xs @ map Inr ys"
  shows "list_all is_container (take (length xs) (map snd ps)) \<and>
         list_all (\<lambda>m. \<not> is_container m) (drop (length xs) (map snd ps))"
proof -
  have t: "map fst (take (length xs) ps) = map Inl xs"
    using arg_cong[OF assms(2), of "take (length xs)"] by (simp add: take_map)
  have d: "map fst (drop (length xs) ps) = map Inr ys"
    using arg_cong[OF assms(2), of "drop (length xs)"] by (simp add: drop_map)
  have "\<forall>p \<in> set (take (length xs) ps). isl (fst p)"
  proof
    fix p assume "p \<in> set (take (length xs) ps)"
    then have "fst p \<in> set (map fst (take (length xs) ps))" by simp
    with t show "isl (fst p)" by auto
  qed
  moreover have "\<forall>p \<in> set (drop (length xs) ps). \<not> isl (fst p)"
  proof
    fix p assume "p \<in> set (drop (length xs) ps)"
    then have "fst p \<in> set (map fst (drop (length xs) ps))" by simp
    with d show "\<not> isl (fst p)" by auto
  qed
  moreover have "\<forall>p \<in> set (take (length xs) ps). isl (fst p) = is_container (snd p)"
    "\<forall>p \<in> set (drop (length xs) ps). isl (fst p) = is_container (snd p)"
    using assms(1) by (auto dest: in_set_takeD in_set_dropD)
  ultimately show ?thesis
    by (auto simp: list_all_iff take_map drop_map)
qed

lemma demo_run_ok:
  "Create (instrumented (demo_collab [])) (demo_exercise []) (0, []) =
     (OK,
      (demo_exercise [ContainerInstance 0, ContainerInstance 1, VmInstance 2])
        \<lparr>ips := Some [2, 3], dnsRecords := demo_records\<rparr>,
      (3, [CreateContainerCall \<lparr>Image_conf = ''web'', DNS = [''172.16.5.1'']\<rparr> (Inr 0),
           ConnectCall 0 [] (Inr 2),
           CreateContainerCall \<lparr>Image_conf = ''db'', DNS = [''172.16.5.1'']\<rparr> (Inr 1),
           ConnectCall 1 [] (Inr 3),
           GetCopyCall ''kali.ova'' ''br0'' (Inr 2)]))"
  by (simp add: create_defs demo_defs)

lemma demo_run_failed:
  "Create (instrumented (demo_collab [''db''])) (demo_exercise []) (0, []) =
     (Failed ''no such image'',
      (demo_exercise [])\<lparr>dnsRecords := take 2 demo_records\<rparr>,
      (1, [CreateContainerCall \<lparr>Image_conf = ''web'', DNS = [''172.16.5.1'']\<rparr> (Inr 0),
           ConnectCall 0 [] (Inr 2),
           CreateContainerCall \<lparr>Image_conf = ''db'', DNS = [''172.16.5.1'']\<rparr>
             (Inl ''no such image'')]))"
  by (simp add: create_defs demo_defs)

text \<open>
  Claim C4. With collaborators that all succeed, on a controller whose IP table is nil or
  aligned with the container specifications, \<^verbatim>\<open>Create()\<close> returns nil and the machine list
  has one instance per container specification followed by one per virtual machine
  specification: it is the list of the instances the provisioning calls returned, in call
  order, and the requests of these calls are the container specifications (with the DNS
  server injected) in order, then the images of the virtual machines in order.
\<close>

theorem Create_machine_list:
  assumes "succeeding K" and "records_aligned (conf e)" and "ips_aligned e"
  shows "\<exists>e' w' log. Create (instrumented K) e (w, []) = (OK, e', (w', log)) \<and>
    length (machines e') = length (fst (ContainerOpts (conf e))) + length (VBoxConfig (conf e)) \<and>
    list_all is_container (take (length (fst (ContainerOpts (conf e)))) (machines e')) \<and>
    list_all (\<lambda>m. \<not> is_container m) (drop (length (fst (ContainerOpts (conf e)))) (machines e')) \<and>
    machines e' = map snd (provisioned log) \<and>
    map fst (provisioned log) =
      map (\<lambda>spec. Inl (spec\<lparr>DNS := [dnsIP e]\<rparr>)) (fst (ContainerOpts (conf e))) @
      map (\<lambda>spec. Inr (Image_vbox spec, Interface K)) (VBoxConfig (conf e))"
proof -
  let ?KI = "instrumented K"
  obtain containers records where opts: "ContainerOpts (conf e) = (containers, records)"
    by (metis prod.exhaust)
  obtain o1 fr1 where l1: "for_each (container_step ?KI records) (enumerate 0 containers)
           \<lparr>recv = e, machines_var = [], newIps = [], world = (w, [])\<rparr> = (o1, fr1)"
    by (metis prod.exhaust)
  obtain o2 fr2 where l2: "for_each (vm_step ?KI) (VBoxConfig (conf e)) fr1 = (o2, fr2)"
    by (metis prod.exhaust)
  note sI = succeeding_instrumented[OF assms(1)]
  from assms(2,3) opts have "0 + length containers \<le> length records"
    "case ips (recv \<lparr>recv = e, machines_var = [], newIps = [], world = (w, [])\<rparr>) of
       None \<Rightarrow> True | Some tab \<Rightarrow> 0 + length containers \<le> length tab"
    by (simp_all add: records_aligned_def ips_aligned_def split: option.splits)
  from containers_succeed[OF sI this] l1 have o1: "o1 = OK" by simp
  from vms_succeed[OF sI, of "VBoxConfig (conf e)" fr1] l2 have o2: "o2 = OK" by simp
  have "fst (Create ?KI e (w, [])) = OK"
    using Create_unfold[OF opts l1 l2] o1 o2 by simp
  then obtain e' w' log where run: "Create ?KI e (w, []) = (OK, e', (w', log))"
    by (cases "Create ?KI e (w, [])"; cases "snd (snd (Create ?KI e (w, [])))") auto
  note L = Create_OK_log[OF run opts]
  from L have ms: "machines e' = map snd (provisioned log)" and
    req: "map fst (provisioned log) =
      map Inl (map (\<lambda>s. s\<lparr>DNS := [dnsIP e]\<rparr>) containers) @
      map Inr (map (\<lambda>s. (Image_vbox s, Interface K)) (VBoxConfig (conf e)))"
    by simp_all
  from arg_cong[OF req, of length] ms have len:
    "length (machines e') = length containers + length (VBoxConfig (conf e))"
    by simp
  from kinds_split[OF provisioned_kinds req] ms have
    "list_all is_container (take (length containers) (machines e'))"
    "list_all (\<lambda>m. \<not> is_container m) (drop (length containers) (machines e'))"
    by simp_all
  with run L len opts show ?thesis by simp
qed

text \<open>
  The example exercise: two containers, then one virtual machine.
\<close>

theorem Create_machine_list_witness:
  "succeeding (demo_collab []) \<and> records_aligned (conf (demo_exercise [])) \<and>
   ips_aligned (demo_exercise []) \<and>
   Create (instrumented (demo_collab [])) (demo_exercise []) (0, []) =
     (OK,
      (demo_exercise [ContainerInstance 0, ContainerInstance 1, VmInstance 2])
        \<lparr>ips := Some [2, 3], dnsRecords := demo_records\<rparr>,
      (3, [CreateContainerCall \<lparr>Image_conf = ''web'', DNS = [''172.16.5.1'']\<rparr> (Inr 0),
           ConnectCall 0 [] (Inr 2),
           CreateContainerCall \<lparr>Image_conf = ''db'', DNS = [''172.16.5.1'']\<rparr> (Inr 1),
           ConnectCall 1 [] (Inr 3),
           GetCopyCall ''kali.ova'' ''br0'' (Inr 2)]))"
proof -
  have a: "records_aligned (conf (demo_exercise []))" "ips_aligned (demo_exercise [])"
    by (simp_all add: records_aligned_def ips_aligned_def demo_exercise_def demo_conf_def)
  from Create_machine_list[OF demo_succeeding a, of 0] demo_succeeding a demo_run_ok
  show ?thesis by blast
qed

text \<open>
  Claim C5. After a call of \<^verbatim>\<open>Create()\<close> that returned nil, the records appended to the
  record set are, container by container and template by template, the templates with an
  empty target replaced by \<^verbatim>\<open>FormatIP\<close> of the octet that \<^verbatim>\<open>Connect\<close> returned for that
  container, and the templates with a target unchanged.
\<close>

theorem Create_dns_defaulting:
  assumes "Create (instrumented K) e (w, []) = (OK, e', (w', log))"
  shows "length (octets log) = length (fst (ContainerOpts (conf e))) \<and>
    dnsRecords e' = dnsRecords e @
      concat (map2 (\<lambda>d templates. map (default_target (FormatIP K d)) templates)
                (octets log) (snd (ContainerOpts (conf e))))"
proof -
  obtain containers records where opts: "ContainerOpts (conf e) = (containers, records)"
    by (metis prod.exhaust)
  from Create_OK_log[OF assms opts] opts show ?thesis by simp
qed

text \<open>
  The example exercise: the two address records take the addresses of octets 2 and 3, the
  alias keeps its target.
\<close>

theorem Create_dns_defaulting_witness:
  "Create (instrumented (demo_collab [])) (demo_exercise []) (0, []) =
     (OK,
      (demo_exercise [ContainerInstance 0, ContainerInstance 1, VmInstance 2])
        \<lparr>ips := Some [2, 3], dnsRecords := demo_records\<rparr>,
      (3, [CreateContainerCall \<lparr>Image_conf = ''web'', DNS = [''172.16.5.1'']\<rparr> (Inr 0),
           ConnectCall 0 [] (Inr 2),
           CreateContainerCall \<lparr>Image_conf = ''db'', DNS = [''172.16.5.1'']\<rparr> (Inr 1),
           ConnectCall 1 [] (Inr 3),
           GetCopyCall ''kali.ova'' ''br0'' (Inr 2)])) \<and>
   concat (map2 (\<lambda>d templates. map (default_target (FormatIP (demo_collab []) d)) templates)
     [2, 3] (snd (ContainerOpts demo_conf))) = demo_records"
proof -
  have "concat (map2 (\<lambda>d templates. map (default_target (FormatIP (demo_collab []) d)) templates)
     [2, 3] (snd (ContainerOpts demo_conf))) = demo_records"
    by (simp add: default_target_def demo_collab_def demo_conf_def demo_records_def)
  with Create_dns_defaulting[OF demo_run_ok] demo_run_ok show ?thesis by blast
qed

subsection \<open>A failing provisioning call\<close>

lemma container_step_fail_fast:
  assumes "container_step (instrumented K) records x fr = (out, fr')"
  shows "\<exists>new. snd (world fr') = snd (world fr) @ new \<and> fail_fast out new"
proof -
  let ?spec = "(snd x)\<lparr>DNS := [dnsIP (recv fr)]\<rparr>"
  obtain r1 w1 where cc: "CreateContainer (instrumented K) ?spec (world fr) = (r1, w1)"
    by (metis prod.exhaust)
  then have w1: "snd w1 = snd (world fr) @ [CreateContainerCall ?spec r1]"
    by (auto simp: instrumented_simps split: prod.splits)
  show ?thesis
  proof (cases r1)
    case (Inl err)
    with cc assms have "out = Failed err" "fr' = fr\<lparr>world := w1\<rparr>"
      by (auto simp: container_step_def)
    with w1 Inl show ?thesis by (simp add: fail_fast_def)
  next
    case (Inr c)
    obtain r2 fr2 where cs: "connect_step (instrumented K) (fst x) c (fr\<lparr>world := w1\<rparr>) = (r2, fr2)"
      by (metis prod.exhaust)
    have "\<exists>new2. snd (world fr2) = snd w1 @ new2 \<and>
        (case r2 of Inl out2 \<Rightarrow> fail_fast out2 new2 \<and> out2 \<noteq> OK
         | Inr d \<Rightarrow> list_all (\<lambda>c. call_error c = None) new2)"
    proof (cases "case ips (recv fr) of None \<Rightarrow> True | Some tab \<Rightarrow> fst x < length tab")
      case False
      with cs have "r2 = Inl Panic" "fr2 = fr\<lparr>world := w1\<rparr>"
        by (auto simp: connect_step_def split: option.splits)
      then show ?thesis by (simp add: fail_fast_def)
    next
      case True
      let ?ip = "case ips (recv fr) of None \<Rightarrow> [] | Some tab \<Rightarrow> [tab ! fst x]"
      obtain r3 w3 where k: "Connect K c ?ip (fst w1) = (r3, w3)" by (metis prod.exhaust)
      then have ki: "Connect (instrumented K) c ?ip w1 = (r3, (w3, snd w1 @ [ConnectCall c ?ip r3]))"
        by (simp add: instrumented_simps)
      show ?thesis
      proof (cases r3)
        case (Inl err)
        with ki True cs have "r2 = Inl (Failed err)"
          "snd (world fr2) = snd w1 @ [ConnectCall c ?ip r3]"
          by (auto simp: connect_step_def split: option.splits)
        with Inl show ?thesis by (simp add: fail_fast_def)
      next
        case (Inr d)
        with ki True cs have "r2 = Inr d"
          "snd (world fr2) = snd w1 @ [ConnectCall c ?ip r3]"
          by (auto simp: connect_step_def split: option.splits)
        with Inr show ?thesis by simp
      qed
    qed
    then obtain new2 where n2: "snd (world fr2) = snd w1 @ new2"
      "case r2 of Inl out2 \<Rightarrow> fail_fast out2 new2 \<and> out2 \<noteq> OK
         | Inr d \<Rightarrow> list_all (\<lambda>c. call_error c = None) new2" by blast
    have first: "list_all (\<lambda>c. call_error c = None) [CreateContainerCall ?spec r1]"
      using Inr by simp
    show ?thesis
    proof (cases r2)
      case (Inl out2)
      with cc Inr cs assms have "out = out2" "fr' = fr2"
        by (auto simp: container_step_def)
      with n2 Inl fail_fast_append[OF first, of out2 new2] w1 show ?thesis by auto
    next
      case d: (Inr d)
      with cc Inr cs assms have "(out = OK \<or> out = Panic) \<and> snd (world fr') = snd (world fr2)"
        by (auto simp: container_step_def split: if_splits)
      moreover from n2 d first have "list_all (\<lambda>c. call_error c = None)
          ([CreateContainerCall ?spec r1] @ new2)" by simp
      ultimately show ?thesis using n2(1) w1 by (auto simp: fail_fast_def)
    qed
  qed
qed

lemma vm_step_fail_fast:
  assumes "vm_step (instrumented K) x fr = (out, fr')"
  shows "\<exists>new. snd (world fr') = snd (world fr) @ new \<and> fail_fast out new"
  using assms
  by (auto simp: vm_step_def instrumented_simps fail_fast_def split: prod.splits sum.splits)

lemma Create_fail_fast:
  assumes "Create (instrumented K) e (w, []) = (out, e', (w', log))"
  shows "fail_fast out log"
proof -
  let ?KI = "instrumented K"
  obtain containers records where opts: "ContainerOpts (conf e) = (containers, records)"
    by (metis prod.exhaust)
  obtain o1 fr1 where l1: "for_each (container_step ?KI records) (enumerate 0 containers)
           \<lparr>recv = e, machines_var = [], newIps = [], world = (w, [])\<rparr> = (o1, fr1)"
    by (metis prod.exhaust)
  obtain o2 fr2 where l2: "for_each (vm_step ?KI) (VBoxConfig (conf e)) fr1 = (o2, fr2)"
    by (metis prod.exhaust)
  have "\<exists>new. snd (world fr1) =
      snd (world \<lparr>recv = e, machines_var = [], newIps = [], world = (w, [])\<rparr>) @ new \<and>
      fail_fast o1 new"
    by (rule for_each_fail_fast[where lg = "\<lambda>fr. snd (world fr)"
          and f = "container_step ?KI records", OF _ l1])
       (rule container_step_fail_fast)
  then obtain new1 where n1: "snd (world fr1) = new1" "fail_fast o1 new1" by auto
  have "\<exists>new. snd (world fr2) = snd (world fr1) @ new \<and> fail_fast o2 new"
    by (rule for_each_fail_fast[where lg = "\<lambda>fr. snd (world fr)"
          and f = "vm_step ?KI", OF _ l2])
       (rule vm_step_fail_fast)
  then obtain new2 where n2: "snd (world fr2) = snd (world fr1) @ new2" "fail_fast o2 new2"
    by auto
  show ?thesis
  proof (cases "o1 = OK")
    case False
    with Create_unfold[OF opts l1 l2] assms have "out = o1" "world fr1 = (w', log)" by auto
    with n1 show ?thesis by simp
  next
    case True
    with Create_unfold[OF opts l1 l2] assms have "out = o2" "world fr2 = (w', log)"
      by (auto split: if_splits)
    moreover from n1(2) True have "list_all (\<lambda>c. call_error c = None) new1"
      by (simp add: fail_fast_def)
    ultimately show ?thesis using fail_fast_append[OF _ n2(2), of new1] n1(1) n2(1) by simp
  qed
qed

text \<open>
  Claim C1 as stated fails: when the provisioning call of the second container fails, one
  instance has been created, and the machine list of the controller is empty, as it was
  before the call.
\<close>

theorem Create_failure_partial_list_counterexample:
  "fst (Create (instrumented (demo_collab [''db''])) (demo_exercise []) (0, [])) =
     Failed ''no such image'' \<and>
   last (snd (snd (snd (Create (instrumented (demo_collab [''db''])) (demo_exercise []) (0, []))))) =
     CreateContainerCall \<lparr>Image_conf = ''db'', DNS = [''172.16.5.1'']\<rparr> (Inl ''no such image'') \<and>
   map snd (provisioned
     (snd (snd (snd (Create (instrumented (demo_collab [''db''])) (demo_exercise []) (0, [])))))) =
     [ContainerInstance 0] \<and>
   machines (fst (snd (Create (instrumented (demo_collab [''db''])) (demo_exercise []) (0, [])))) = [] \<and>
   machines (fst (snd (Create (instrumented (demo_collab [''db''])) (demo_exercise []) (0, [])))) \<noteq>
     map snd (provisioned
       (snd (snd (snd (Create (instrumented (demo_collab [''db''])) (demo_exercise []) (0, []))))))"
  unfolding demo_run_failed by (simp add: provisioned_def demo_exercise_def)

text \<open>
  Claim C1, amended. When a provisioning call of a container fails during \<^verbatim>\<open>Create()\<close>,
  the call returns that error unmodified, no collaborator is called afterwards, and the
  machine list and the IP table of the controller are what they were before the call: the
  instances created before the failure are held in a local variable only.
\<close>

theorem Create_failure_keeps_machine_list:
  assumes "Create (instrumented K) e (w, []) = (out, e', (w', log))"
    and "CreateContainerCall spec (Inl err) \<in> set log"
  shows "out = Failed err \<and> last log = CreateContainerCall spec (Inl err) \<and>
         machines e' = machines e \<and> ips e' = ips e"
proof -
  have "call_error (CreateContainerCall spec (Inl err)) = Some err" by simp
  from fail_fast_failed_call[OF Create_fail_fast[OF assms(1)] assms(2) this]
  have out: "out = Failed err" and l: "last log = CreateContainerCall spec (Inl err)" by simp_all
  from out have "out \<noteq> OK" by simp
  from ips_dnsRecords_update[OF Create_not_OK[OF assms(1) this]] out l show ?thesis by simp
qed

text \<open>
  A controller that holds one instance keeps exactly that instance.
\<close>

theorem Create_failure_keeps_machine_list_witness:
  "CreateContainerCall \<lparr>Image_conf = ''db'', DNS = [''172.16.5.1'']\<rparr> (Inl ''no such image'')
     \<in> set [CreateContainerCall \<lparr>Image_conf = ''web'', DNS = [''172.16.5.1'']\<rparr> (Inr 0),
           ConnectCall 0 [] (Inr 2),
           CreateContainerCall \<lparr>Image_conf = ''db'', DNS = [''172.16.5.1'']\<rparr>
             (Inl ''no such image'')] \<and>
   Create (instrumented (demo_collab [''db''])) (demo_exercise [VmInstance 7]) (0, []) =
     (Failed ''no such image'',
      (demo_exercise [VmInstance 7])\<lparr>dnsRecords := take 2 demo_records\<rparr>,
      (1, [CreateContainerCall \<lparr>Image_conf = ''web'', DNS = [''172.16.5.1'']\<rparr> (Inr 0),
           ConnectCall 0 [] (Inr 2),
           CreateContainerCall \<lparr>Image_conf = ''db'', DNS = [''172.16.5.1'']\<rparr>
             (Inl ''no such image'')])) \<and>
   machines ((demo_exercise [VmInstance 7])\<lparr>dnsRecords := take 2 demo_records\<rparr>) =
     machines (demo_exercise [VmInstance 7])"
proof -
  have run: "Create (instrumented (demo_collab [''db''])) (demo_exercise [VmInstance 7]) (0, []) =
     (Failed ''no such image'',
      (demo_exercise [VmInstance 7])\<lparr>dnsRecords := take 2 demo_records\<rparr>,
      (1, [CreateContainerCall \<lparr>Image_conf = ''web'', DNS = [''172.16.5.1'']\<rparr> (Inr 0),
           ConnectCall 0 [] (Inr 2),
           CreateContainerCall \<lparr>Image_conf = ''db'', DNS = [''172.16.5.1'']\<rparr>
             (Inl ''no such image'')]))"
    by (simp add: create_defs demo_defs)
  have mem: "CreateContainerCall \<lparr>Image_conf = ''db'', DNS = [''172.16.5.1'']\<rparr> (Inl ''no such image'')
     \<in> set [CreateContainerCall \<lparr>Image_conf = ''web'', DNS = [''172.16.5.1'']\<rparr> (Inr 0),
           ConnectCall 0 [] (Inr 2),
           CreateContainerCall \<lparr>Image_conf = ''db'', DNS = [''172.16.5.1'']\<rparr>
             (Inl ''no such image'')]"
    by simp
  from Create_failure_keeps_machine_list[OF run mem] run mem show ?thesis by blast
qed

subsection \<open>The record set\<close>














subsection \<open>Instrumentation does not change a run\<close>

lemma connect_step_unlogged:
  "connect_step K i c (unlogged fr) =
     (case connect_step (instrumented K) i c fr of (r, fr1) \<Rightarrow> (r, unlogged fr1))"
  by (simp add: connect_step_def unlogged_def instrumented_simps
           split: option.splits prod.splits sum.splits)

lemma unlogged_world: "unlogged (fr\<lparr>world := wl\<rparr>) = (unlogged fr)\<lparr>world := fst wl\<rparr>"
  by (simp add: unlogged_def)

lemma container_step_unlogged:
  "container_step K records x (unlogged fr) =
     (case container_step (instrumented K) records x fr of (out, fr1) \<Rightarrow> (out, unlogged fr1))"
proof -
  let ?spec = "(snd x)\<lparr>DNS := [dnsIP (recv fr)]\<rparr>"
  obtain r1 w1 where cc: "CreateContainer K ?spec (fst (world fr)) = (r1, w1)"
    by (metis prod.exhaust)
  then have cc': "CreateContainer (instrumented K) ?spec (world fr) =
      (r1, (w1, snd (world fr) @ [CreateContainerCall ?spec r1]))"
    by (simp add: instrumented_simps)
  from cc have cc0: "CreateContainer K ((snd x)\<lparr>DNS := [dnsIP (recv (unlogged fr))]\<rparr>)
      (world (unlogged fr)) = (r1, w1)"
    by (simp add: unlogged_def)
  show ?thesis
  proof (cases r1)
    case (Inl err)
    with cc' cc0 show ?thesis by (simp add: container_step_def unlogged_def)
  next
    case (Inr c)
    let ?wl = "(w1, snd (world fr) @ [CreateContainerCall ?spec (Inr c)])"
    note cc' = cc'[unfolded Inr] and cc0 = cc0[unfolded Inr]
    obtain r2 fr2 where cs: "connect_step (instrumented K) (fst x) c (fr\<lparr>world := ?wl\<rparr>) = (r2, fr2)"
      by (metis prod.exhaust)
    with connect_step_unlogged[of K "fst x" c "fr\<lparr>world := ?wl\<rparr>"]
    have cs0: "connect_step K (fst x) c ((unlogged fr)\<lparr>world := w1\<rparr>) = (r2, unlogged fr2)"
      by (simp add: unlogged_world)
    show ?thesis
      unfolding container_step_def[of K records x "unlogged fr"]
        container_step_def[of "instrumented K" records x fr] cc' cc0
      using cs cs0
      by (cases r2) (simp_all add: unlogged_def instrumented_simps)
  qed
qed

lemma vm_step_unlogged:
  "vm_step K x (unlogged fr) =
     (case vm_step (instrumented K) x fr of (out, fr1) \<Rightarrow> (out, unlogged fr1))"
  by (simp add: vm_step_def unlogged_def instrumented_simps split: prod.splits sum.splits)

text \<open>
  An instrumented run of \<^verbatim>\<open>Create()\<close> is the plain run with a log beside it.
\<close>

lemma Create_instrumented:
  "Create K e w =
     (case Create (instrumented K) e (w, l) of (out, e', wl) \<Rightarrow> (out, e', fst wl))"
proof -
  let ?KI = "instrumented K"
  obtain containers records where opts: "ContainerOpts (conf e) = (containers, records)"
    by (metis prod.exhaust)
  obtain o1 fr1 where l1: "for_each (container_step ?KI records) (enumerate 0 containers)
           \<lparr>recv = e, machines_var = [], newIps = [], world = (w, l)\<rparr> = (o1, fr1)"
    by (metis prod.exhaust)
  obtain o2 fr2 where l2: "for_each (vm_step ?KI) (VBoxConfig (conf e)) fr1 = (o2, fr2)"
    by (metis prod.exhaust)
  have init: "\<lparr>recv = e, machines_var = [], newIps = [], world = w\<rparr> =
      unlogged \<lparr>recv = e, machines_var = [], newIps = [], world = (w, l)\<rparr>"
    by (simp add: unlogged_def)
  have l1': "for_each (container_step K records) (enumerate 0 containers)
           \<lparr>recv = e, machines_var = [], newIps = [], world = w\<rparr> = (o1, unlogged fr1)"
    unfolding init
    using for_each_commute[where g = "container_step K records"
        and f = "container_step ?KI records" and h = unlogged, OF container_step_unlogged] l1
    by simp
  have l2': "for_each (vm_step K) (VBoxConfig (conf e)) (unlogged fr1) = (o2, unlogged fr2)"
    using for_each_commute[where g = "vm_step K" and f = "vm_step ?KI" and h = unlogged,
        OF vm_step_unlogged] l2 by simp
  show ?thesis
    unfolding Create_unfold[OF opts l1' l2'] Create_unfold[OF opts l1 l2]
    by (simp add: unlogged_def)
qed

section \<open>The tag validator\<close>

lemma char_eq_nat: "(c = d) = ((of_char c :: nat) = of_char d)"
  by simp

lemma nat_range_az: "(97 \<le> n \<and> n \<le> 122) = (n \<in> set [97..<123::nat])"
  by (simp only: set_upt atLeastLessThan_iff) arith

lemma nat_range_09: "(48 \<le> n \<and> n \<le> 57) = (n \<in> set [48..<58::nat])"
  by (simp only: set_upt atLeastLessThan_iff) arith

lemma class_lower_or_digit:
  "in_class [Range CHR ''a'' CHR ''z'', Range CHR ''0'' CHR ''9''] c = lower_or_digit c"
  unfolding in_class_def lower_or_digit_def
  by (auto simp add: char_eq_nat[of c] nat_range_az nat_range_09 simp del: of_char_eq_iff)

lemma class_hyphen:
  "in_class [Range CHR ''a'' CHR ''z'', Range CHR ''0'' CHR ''9'', Range CHR ''-'' CHR ''-''] c
     = (lower_or_digit c \<or> c = CHR ''-'')"
  unfolding in_class_def lower_or_digit_def
  by (auto simp add: char_eq_nat[of c] nat_range_az nat_range_09 simp del: of_char_eq_iff)

lemma match_star_then_class:
  "match_items [ClassStar B, Class C] s =
     (s \<noteq> [] \<and> in_class C (last s) \<and> (\<forall>c \<in> set (butlast s). in_class B c))"
  by (induction s) auto

text \<open>
  Claim C8. The tag pattern accepts a string exactly when the string is a valid tag in the
  words of the specification; \<^verbatim>\<open>abc-123\<close> and \<^verbatim>\<open>ab\<close> are accepted, and \<^verbatim>\<open>a\<close>, \<^verbatim>\<open>-abc\<close>,
  \<^verbatim>\<open>ABC\<close>, the empty string and \<^verbatim>\<open>a_b\<close> are rejected.
\<close>

theorem tagRegex_accepts:
  "(MatchString tagRegex s = valid_tag_spec s) \<and>
   MatchString tagRegex ''abc-123'' \<and> MatchString tagRegex ''ab'' \<and>
   \<not> MatchString tagRegex ''a'' \<and> \<not> MatchString tagRegex ''-abc'' \<and>
   \<not> MatchString tagRegex ''ABC'' \<and> \<not> MatchString tagRegex [] \<and>
   \<not> MatchString tagRegex ''a_b''"
proof -
  have iff: "MatchString tagRegex s = valid_tag_spec s" for s
  proof (cases s)
    case Nil
    then show ?thesis by (simp add: MatchString_def tagRegex_def valid_tag_spec_def)
  next
    case (Cons c t)
    show ?thesis
    proof (cases "t = []")
      case True
      with Cons show ?thesis by (simp add: MatchString_def tagRegex_def valid_tag_spec_def)
    next
      case False
      then have "Suc 0 \<le> length t" by (cases t) simp_all
      with False Cons show ?thesis
        unfolding MatchString_def tagRegex_def valid_tag_spec_def
        by (simp add: match_star_then_class class_lower_or_digit class_hyphen)
    qed
  qed
  have "valid_tag_spec ''abc-123''" "valid_tag_spec ''ab''" "\<not> valid_tag_spec ''a''"
    "\<not> valid_tag_spec ''-abc''" "\<not> valid_tag_spec ''ABC''" "\<not> valid_tag_spec []"
    "\<not> valid_tag_spec ''a_b''"
    by (simp_all add: valid_tag_spec_def lower_or_digit_def)
  with iff show ?thesis by simp
qed

theorem tagRegex_accepts_witness:
  "MatchString tagRegex ''abc-123'' \<and> valid_tag_spec ''abc-123'' \<and>
   \<not> MatchString tagRegex ''a_b'' \<and> \<not> valid_tag_spec ''a_b''"
  using tagRegex_accepts[of "''abc-123''"] tagRegex_accepts[of "''a_b''"] by simp

section \<open>The hooks of the event configuration store\<close>

lemma map_index_entries:
  "map (\<lambda>m. (fst m, c, r)) xs = map (\<lambda>i. (i, c, r)) (map fst xs)"
  by (simp add: comp_def)

lemma runHooks_log:
  assumes "runHooks \<lparr>conf_store = c, hooks = instrumented_hooks hs\<rparr> (w, l) = (out, (w', log))"
  shows "(out = OK \<and> log = l @ map (\<lambda>i. (i, c, None)) [0..<length hs]) \<or>
         (\<exists>k err. k < length hs \<and> out = Failed err \<and>
            log = l @ map (\<lambda>i. (i, c, None)) [0..<k] @ [(k, c, Some err)])"
proof -
  let ?ev = "\<lambda>ih r. (fst ih, c, r)"
  let ?g = "\<lambda>ih w. snd ih c w"
  have "for_each (\<lambda>ih wl. returned (logging ?ev ?g ih wl)) (enumerate 0 hs) (w, l) = (out, (w', log))"
    using assms by (simp add: runHooks_def instrumented_hooks_def for_each_map logging_def)
  from logged_loop[OF this] show ?thesis
  proof
    assume "out = OK \<and> log = l @ map (\<lambda>m. ?ev m None) (enumerate 0 hs)"
    moreover have "map (\<lambda>m. ?ev m None) (enumerate 0 hs) = map (\<lambda>i. (i, c, None)) [0..<length hs]"
      by (simp only: map_index_entries map_fst_enumerate) simp
    ultimately show ?thesis by simp
  next
    assume "\<exists>k err. k < length (enumerate 0 hs) \<and> out = Failed err \<and>
       log = l @ map (\<lambda>m. ?ev m None) (take k (enumerate 0 hs)) @ [?ev (enumerate 0 hs ! k) (Some err)]"
    then obtain k err where k: "k < length hs" "out = Failed err"
       "log = l @ map (\<lambda>m. ?ev m None) (take k (enumerate 0 hs)) @ [?ev (enumerate 0 hs ! k) (Some err)]"
      by auto
    have "map (\<lambda>m. ?ev m None) (take k (enumerate 0 hs)) =
        map (\<lambda>i. (i, c, None)) (take k (map fst (enumerate 0 hs)))"
      by (simp only: map_index_entries take_map)
    also have "take k (map fst (enumerate 0 hs)) = [0..<k]"
      using k(1) by (simp add: map_fst_enumerate)
    finally have "log = l @ map (\<lambda>i. (i, c, None)) [0..<k] @ [(k, c, Some err)]"
      using k by (simp add: nth_enumerate_eq)
    with k show ?thesis by blast
  qed
qed

text \<open>
  Claim C9. \<^verbatim>\<open>SetCapacity\<close> and \<^verbatim>\<open>Finish\<close> change the configuration and then call the
  hooks in registration order, each with the changed configuration. The first hook that
  returns an error ends the run and its error is the result; the change of the
  configuration stays.
\<close>

theorem hooks_run_in_order_fail_fast:
  assumes "SetCapacity n (NewEventConfigStore c (instrumented_hooks hs)) (w, []) = (out, es', (w', log))"
    and "Finish t (NewEventConfigStore c2 (instrumented_hooks hs2)) (w2, []) =
           (out2, es2', (w2', log2))"
  shows "Read es' = c\<lparr>Capacity := n\<rparr> \<and>
    ((out = OK \<and> log = map (\<lambda>i. (i, c\<lparr>Capacity := n\<rparr>, None)) [0..<length hs]) \<or>
     (\<exists>k err. k < length hs \<and> out = Failed err \<and>
        log = map (\<lambda>i. (i, c\<lparr>Capacity := n\<rparr>, None)) [0..<k] @
              [(k, c\<lparr>Capacity := n\<rparr>, Some err)])) \<and>
    Read es2' = c2\<lparr>FinishedAt := Some t\<rparr> \<and>
    ((out2 = OK \<and> log2 = map (\<lambda>i. (i, c2\<lparr>FinishedAt := Some t\<rparr>, None)) [0..<length hs2]) \<or>
     (\<exists>k err. k < length hs2 \<and> out2 = Failed err \<and>
        log2 = map (\<lambda>i. (i, c2\<lparr>FinishedAt := Some t\<rparr>, None)) [0..<k] @
               [(k, c2\<lparr>FinishedAt := Some t\<rparr>, Some err)]))"
proof -
  from assms(1) have
    run1: "runHooks \<lparr>conf_store = c\<lparr>Capacity := n\<rparr>, hooks = instrumented_hooks hs\<rparr> (w, []) =
             (out, (w', log))"
    and es1: "conf_store es' = c\<lparr>Capacity := n\<rparr>"
    by (auto simp: SetCapacity_def NewEventConfigStore_def Let_def split: prod.splits)
  from assms(2) have
    run2: "runHooks \<lparr>conf_store = c2\<lparr>FinishedAt := Some t\<rparr>, hooks = instrumented_hooks hs2\<rparr>
             (w2, []) = (out2, (w2', log2))"
    and es2: "conf_store es2' = c2\<lparr>FinishedAt := Some t\<rparr>"
    by (auto simp: Finish_def NewEventConfigStore_def Let_def split: prod.splits)
  from runHooks_log[OF run1] runHooks_log[OF run2] es1 es2 show ?thesis
    by (simp add: Read_def)
qed

text \<open>
  Two hooks that save; and a hook that fails between two that save.
\<close>

theorem hooks_run_in_order_fail_fast_witness:
  "SetCapacity 30 (NewEventConfigStore demo_event (instrumented_hooks [save_hook, save_hook])) (0, []) =
     (OK,
      \<lparr>conf_store = demo_event\<lparr>Capacity := 30\<rparr>, hooks = instrumented_hooks [save_hook, save_hook]\<rparr>,
      (2, [(0, demo_event\<lparr>Capacity := 30\<rparr>, None), (1, demo_event\<lparr>Capacity := 30\<rparr>, None)])) \<and>
   Finish 950 (NewEventConfigStore demo_event
       (instrumented_hooks [save_hook, full_disk_hook, save_hook])) (0, []) =
     (Failed ''no space left on device'',
      \<lparr>conf_store = demo_event\<lparr>FinishedAt := Some 950\<rparr>,
       hooks = instrumented_hooks [save_hook, full_disk_hook, save_hook]\<rparr>,
      (1, [(0, demo_event\<lparr>FinishedAt := Some 950\<rparr>, None),
           (1, demo_event\<lparr>FinishedAt := Some 950\<rparr>, Some ''no space left on device'')]))"
proof -
  have run1: "SetCapacity 30 (NewEventConfigStore demo_event (instrumented_hooks [save_hook, save_hook])) (0, []) =
     (OK,
      \<lparr>conf_store = demo_event\<lparr>Capacity := 30\<rparr>, hooks = instrumented_hooks [save_hook, save_hook]\<rparr>,
      (2, [(0, demo_event\<lparr>Capacity := 30\<rparr>, None), (1, demo_event\<lparr>Capacity := 30\<rparr>, None)]))"
    by (simp add: SetCapacity_def NewEventConfigStore_def runHooks_def instrumented_hooks_def
        logging_def save_hook_def)
  have run2: "Finish 950 (NewEventConfigStore demo_event
       (instrumented_hooks [save_hook, full_disk_hook, save_hook])) (0, []) =
     (Failed ''no space left on device'',
      \<lparr>conf_store = demo_event\<lparr>FinishedAt := Some 950\<rparr>,
       hooks = instrumented_hooks [save_hook, full_disk_hook, save_hook]\<rparr>,
      (1, [(0, demo_event\<lparr>FinishedAt := Some 950\<rparr>, None),
           (1, demo_event\<lparr>FinishedAt := Some 950\<rparr>, Some ''no space left on device'')]))"
    by (simp add: Finish_def NewEventConfigStore_def runHooks_def instrumented_hooks_def
        logging_def save_hook_def full_disk_hook_def)
  from hooks_run_in_order_fail_fast[OF run1 run2] run1 run2 show ?thesis by blast
qed

end
